theory Spec2Isabelle
  imports Main "HOL-Library.Sublist"
begin

section \<open>Python strings\<close>

text \<open>
  A Python \<open>str\<close> is a sequence of Unicode code points, and \<open>len\<close> counts code points.
  A string is therefore a list of code points; \<open>str\<close> turns a literal into one.
\<close>

type_synonym pystr = "nat list"

definition str :: "string \<Rightarrow> pystr" where
  "str s = map of_char s"

text \<open>\<open>s.startswith(prefix)\<close>.\<close>

fun startswith :: "pystr \<Rightarrow> pystr \<Rightarrow> bool" where
  "startswith s [] = True"
| "startswith [] (p # ps) = False"
| "startswith (c # cs) (p # ps) = (c = p \<and> startswith cs ps)"

text \<open>\<open>sub in s\<close>: the substring test.\<close>

fun str_in :: "pystr \<Rightarrow> pystr \<Rightarrow> bool" where
  "str_in sub [] = (sub = [])"
| "str_in sub (c # cs) = (startswith (c # cs) sub \<or> str_in sub cs)"

text \<open>\<open>s.count(sub)\<close>: the number of non-overlapping occurrences, found left to right.\<close>

function str_count :: "pystr \<Rightarrow> pystr \<Rightarrow> nat" where
  "str_count [] sub = (if sub = [] then 1 else 0)"
| "str_count (c # cs) sub =
     (if sub = [] then length cs + 2
      else if startswith (c # cs) sub then 1 + str_count (drop (length sub) (c # cs)) sub
      else str_count cs sub)"
  by pat_completeness auto
termination
  by (relation "measure (\<lambda>(s, sub). length s)") auto

text \<open>
  \<open>s.split("\n")\<close>: the pieces between line feeds; never an empty list, so the first
  case of the inner \<open>case\<close> does not arise.
\<close>

fun str_split :: "pystr \<Rightarrow> pystr list" where
  "str_split [] = [[]]"
| "str_split (c # cs) =
     (if c = 10 then [] # str_split cs
      else (case str_split cs of
              [] \<Rightarrow> [[c]]
            | l # ls \<Rightarrow> (c # l) # ls))"

text \<open>\<open>"\n".join(lines)\<close>.\<close>

fun str_join :: "pystr list \<Rightarrow> pystr" where
  "str_join [] = []"
| "str_join [l] = l"
| "str_join (l # l' # ls) = l @ 10 # str_join (l' # ls)"

text \<open>
  \<open>re.sub(r"\n{3,}", "\n\n", s)\<close>: scanning left to right, a maximal run of line feeds is
  replaced by two of them when it has three or more, and copied otherwise.
\<close>

function re_sub_newlines :: "pystr \<Rightarrow> pystr" where
  "re_sub_newlines [] = []"
| "re_sub_newlines (c # cs) =
     (if c = 10 then
        (let run = takeWhile (\<lambda>x. x = 10) (c # cs);
             rest = dropWhile (\<lambda>x. x = 10) (c # cs)
         in (if 3 \<le> length run then [10, 10] else run) @ re_sub_newlines rest)
      else c # re_sub_newlines cs)"
  by pat_completeness auto
termination
  by (relation "measure length") (auto simp: length_dropWhile_le less_Suc_eq_le)

text \<open>
  \<open>c.isspace()\<close> for one code point: the characters \<open>str.strip()\<close> removes.
\<close>

definition isspace :: "nat \<Rightarrow> bool" where
  "isspace c \<longleftrightarrow>
     (9 \<le> c \<and> c \<le> 13) \<or> (28 \<le> c \<and> c \<le> 32) \<or> c = 133 \<or> c = 160 \<or> c = 5760 \<or>
     (8192 \<le> c \<and> c \<le> 8202) \<or> c = 8232 \<or> c = 8233 \<or> c = 8239 \<or> c = 8287 \<or> c = 12288"

definition strip :: "pystr \<Rightarrow> pystr" where
  "strip s = rev (dropWhile isspace (rev (dropWhile isspace s)))"

text \<open>\<open>str(n)\<close> for a length: its decimal digits.\<close>

fun str_of_nat :: "nat \<Rightarrow> pystr" where
  "str_of_nat n = (if n < 10 then [48 + n] else str_of_nat (n div 10) @ [48 + n mod 10])"

declare str_of_nat.simps [simp del]

section \<open>The content extractor\<close>

definition is_doc_start :: "pystr \<Rightarrow> bool" where
  "is_doc_start line \<longleftrightarrow>
     startswith line (str ''# azurerm_'') \<or>
     startswith line (str ''# data.azurerm_'') \<or>
     str_in (str ''## Example Usage'') line \<or>
     str_in (str ''Example Usage'') line"

text \<open>The first loop: \<open>doc_start\<close> stays 0 when no line matches.\<close>

fun doc_start_loop :: "nat \<Rightarrow> pystr list \<Rightarrow> nat" where
  "doc_start_loop i [] = 0"
| "doc_start_loop i (line # rest) =
     (if is_doc_start line then i else doc_start_loop (i + 1) rest)"

definition footer_patterns :: "pystr list" where
  "footer_patterns =
     [str ''HashiCorp'', [194, 169] @ str '' 20'', str ''Privacy'', str ''Terms of Service'']"

definition any_in :: "pystr list \<Rightarrow> pystr \<Rightarrow> bool" where
  "any_in patterns line = list_ex (\<lambda>pattern. str_in pattern line) patterns"

text \<open>
  The second loop, \<open>for i in range(len(lines) - 1, doc_start, -1)\<close>, entered at \<open>i\<close>:
  \<open>doc_end\<close> stays \<open>len(lines)\<close> when the range is exhausted.
\<close>

fun doc_end_loop :: "pystr list \<Rightarrow> nat \<Rightarrow> nat \<Rightarrow> nat" where
  "doc_end_loop lines doc_start 0 = length lines"
| "doc_end_loop lines doc_start (Suc i) =
     (if Suc i \<le> doc_start then length lines
      else if any_in footer_patterns (lines ! Suc i) then Suc i
      else doc_end_loop lines doc_start i)"

definition skip_patterns :: "pystr list" where
  "skip_patterns =
     [str ''Browse'', str ''Sign-in'', str ''Search all resources'', str ''Version History'',
      str ''[Published'', str ''View all versions'']"

text \<open>The third loop, over \<open>lines[doc_start:doc_end]\<close>.\<close>

fun filter_loop :: "pystr list \<Rightarrow> pystr list" where
  "filter_loop [] = []"
| "filter_loop (line # rest) =
     (if any_in skip_patterns line \<and> length line < 150 then filter_loop rest
      else if str_count line (str '']('') > 5 then filter_loop rest
      else line # filter_loop rest)"

definition doc_start_of :: "pystr list \<Rightarrow> nat" where
  "doc_start_of lines = doc_start_loop 0 lines"

definition doc_end_of :: "pystr list \<Rightarrow> nat" where
  "doc_end_of lines = doc_end_loop lines (doc_start_of lines) (length lines - 1)"

definition cleaned_lines :: "pystr \<Rightarrow> pystr list" where
  "cleaned_lines markdown =
     (let lines = str_split markdown
      in filter_loop (drop (doc_start_of lines) (take (doc_end_of lines) lines)))"

definition clean_terraform_docs :: "pystr \<Rightarrow> pystr" where
  "clean_terraform_docs markdown =
     strip (re_sub_newlines (str_join (cleaned_lines markdown)))"

section \<open>The scrape operation\<close>

record ScrapeResponse =
  markdown :: pystr
  success :: bool
  error :: "pystr option"

datatype http_exception = HTTPException (status_code: nat) (detail: pystr)

text \<open>
  The crawler is an external collaborator acting on the outside world \<open>'w\<close>. One run
  of it, \<open>arun w url\<close>, either raises an exception other than \<open>HTTPException\<close> (kept as
  its \<open>str(e)\<close>) or returns a result with the three fields the operation reads, and
  leaves the world changed. The operation is the crawler's only caller, so the world it
  returns tells how often the crawler ran.
\<close>

datatype crawl_result =
  CrawlResult (crawl_success: bool) (error_message: "pystr option") (raw_markdown: pystr)

datatype crawl_outcome = Raises pystr | Returns crawl_result

text \<open>An f-string field holding an optional string: \<open>None\<close> prints as \<open>None\<close>.\<close>

fun format_field :: "pystr option \<Rightarrow> pystr" where
  "format_field None = str ''None''"
| "format_field (Some s) = s"

definition full_url :: "pystr \<Rightarrow> pystr" where
  "full_url url =
     (if startswith url (str ''/'') then str ''https://registry.terraform.io'' @ url else url)"

text \<open>
  \<open>Inl\<close> is an \<open>HTTPException\<close> leaving the operation (the handler re-raises it), \<open>Inr\<close>
  a returned \<open>ScrapeResponse\<close>.
\<close>

definition scrape_url ::
  "('w \<Rightarrow> pystr \<Rightarrow> crawl_outcome \<times> 'w) \<Rightarrow> 'w \<Rightarrow> pystr \<Rightarrow> (http_exception + ScrapeResponse) \<times> 'w"
where
  "scrape_url arun w url =
     (case arun w (full_url url) of
        (Raises e, w') \<Rightarrow> (Inr \<lparr>markdown = [], success = False, error = Some e\<rparr>, w')
      | (Returns result, w') \<Rightarrow>
          if \<not> crawl_success result then
            (Inl (HTTPException 500
                   (str ''Crawl failed: '' @ format_field (error_message result))), w')
          else
            (let markdown = clean_terraform_docs (raw_markdown result)
             in if length markdown < 200 then
                  (Inl (HTTPException 500
                         (str ''Extracted content too short ('' @ str_of_nat (length markdown) @
                          str '' chars). Page may not have loaded properly.'')), w')
                else (Inr \<lparr>markdown = markdown, success = True, error = None\<rparr>, w')))"

text \<open>
  Two stand-ins for the crawler, with the number of runs so far as the world:
  one gives the same outcome at every run, the other raises at every run.
\<close>

definition const_crawler :: "crawl_result \<Rightarrow> nat \<Rightarrow> pystr \<Rightarrow> crawl_outcome \<times> nat" where
  "const_crawler result w url = (Returns result, Suc w)"

definition raising_crawler :: "pystr \<Rightarrow> nat \<Rightarrow> pystr \<Rightarrow> crawl_outcome \<times> nat" where
  "raising_crawler e w url = (Raises e, Suc w)"

section \<open>Facts about the string operations\<close>

lemma startswith_iff: "startswith s p \<longleftrightarrow> (\<exists>b. s = p @ b)"
  by (induction s p rule: startswith.induct) auto

lemma str_in_iff: "str_in p s \<longleftrightarrow> (\<exists>a b. s = a @ p @ b)"
proof (induction s)
  case Nil
  then show ?case by simp
next
  case (Cons c cs)
  show ?case
  proof
    assume "str_in p (c # cs)"
    then consider "startswith (c # cs) p" | "str_in p cs" by auto
    then show "\<exists>a b. c # cs = a @ p @ b"
    proof cases
      case 1
      then obtain b where "c # cs = p @ b" by (auto simp: startswith_iff)
      then have "c # cs = [] @ p @ b" by simp
      then show ?thesis by blast
    next
      case 2
      then obtain a b where "cs = a @ p @ b" using Cons.IH by auto
      then have "c # cs = (c # a) @ p @ b" by simp
      then show ?thesis by blast
    qed
  next
    assume "\<exists>a b. c # cs = a @ p @ b"
    then obtain a b where ab: "c # cs = a @ p @ b" by auto
    show "str_in p (c # cs)"
    proof (cases a)
      case Nil
      with ab have "startswith (c # cs) p" by (auto simp: startswith_iff)
      then show ?thesis by simp
    next
      case (Cons a0 as)
      with ab have "cs = as @ p @ b" by simp
      then have "str_in p cs" using Cons.IH by blast
      then show ?thesis by simp
    qed
  qed
qed

lemma str_in_middle: "str_in p (a @ p @ b)"
  by (auto simp: str_in_iff)

lemmas clean_eval =
  clean_terraform_docs_def cleaned_lines_def str_def doc_start_of_def doc_end_of_def
  is_doc_start_def any_in_def footer_patterns_def skip_patterns_def strip_def isspace_def

lemma str_of_nat_50: "str_of_nat 50 = str ''50''"
  by (simp add: str_of_nat.simps [of 50] str_of_nat.simps [of 5] str_def)

lemma clean_fifty:
  "clean_terraform_docs (str ''xxxxxxxxxxxxxxxxxxxxxxxxxxxxxxxxxxxxxxxxxxxxxxxxxx'') =
     str ''xxxxxxxxxxxxxxxxxxxxxxxxxxxxxxxxxxxxxxxxxxxxxxxxxx''"
  by (simp add: clean_eval)

lemma length_fifty: "length (str ''xxxxxxxxxxxxxxxxxxxxxxxxxxxxxxxxxxxxxxxxxxxxxxxxxx'') = 50"
  by (simp add: str_def)

lemma long_doc_clean: "clean_terraform_docs (str ''# azurerm_foo\<newline>\<newline>Manages a Foo resource in Azure.\<newline>\<newline>## Example Usage\<newline>\<newline>The name of the Foo resource is required, and changing it forces a new resource to be created in the resource group.\<newline>\<newline>## Argument Reference\<newline>\<newline>The location is optional.'') = str ''# azurerm_foo\<newline>\<newline>Manages a Foo resource in Azure.\<newline>\<newline>## Example Usage\<newline>\<newline>The name of the Foo resource is required, and changing it forces a new resource to be created in the resource group.\<newline>\<newline>## Argument Reference\<newline>\<newline>The location is optional.''"
  by (simp add: clean_eval)

lemma long_doc_length: "length (str ''# azurerm_foo\<newline>\<newline>Manages a Foo resource in Azure.\<newline>\<newline>## Example Usage\<newline>\<newline>The name of the Foo resource is required, and changing it forces a new resource to be created in the resource group.\<newline>\<newline>## Argument Reference\<newline>\<newline>The location is optional.'') = 233"
  by (simp add: str_def)

lemma str_of_nat_digits: "\<forall>c\<in>set (str_of_nat n). 48 \<le> c \<and> c \<le> 57"
proof (induction n rule: str_of_nat.induct)
  case (1 n)
  show ?case
  proof (cases "n < 10")
    case True
    then show ?thesis by (simp add: str_of_nat.simps [of n])
  next
    case False
    then show ?thesis using 1 by (simp add: str_of_nat.simps [of n])
  qed
qed

lemma str_of_nat_value: "foldl (\<lambda>a c. 10 * a + (c - 48)) 0 (str_of_nat n) = n"
proof (induction n rule: str_of_nat.induct)
  case (1 n)
  show ?case
  proof (cases "n < 10")
    case True
    then show ?thesis by (simp add: str_of_nat.simps [of n])
  next
    case False
    then show ?thesis using 1 by (simp add: str_of_nat.simps [of n])
  qed
qed


section \<open>The scrape operation: failures and results\<close>




text \<open>
  C3, as the code has it. When the render succeeds and the cleaned markdown has fewer than
  200 characters, the operation raises an \<open>HTTPException\<close> with status 500 whose detail
  states the measured length in decimal (\<open>str_of_nat_digits\<close>, \<open>str_of_nat_value\<close>); no
  \<open>ScrapeResponse\<close>, successful or not, is returned.
\<close>

theorem short_content_raises_http_500:
  assumes "arun w (full_url url) = (Returns result, w')"
    and "crawl_success result"
    and "length (clean_terraform_docs (raw_markdown result)) < 200"
  shows "fst (scrape_url arun w url) =
           Inl (HTTPException 500
                 (str ''Extracted content too short ('' @
                  str_of_nat (length (clean_terraform_docs (raw_markdown result))) @
                  str '' chars). Page may not have loaded properly.''))
         \<and> (\<exists>d. fst (scrape_url arun w url) = Inl (HTTPException 500 d) \<and>
                str_in (str_of_nat (length (clean_terraform_docs (raw_markdown result)))) d)
         \<and> (\<forall>r. fst (scrape_url arun w url) \<noteq> Inr r)"
proof -
  let ?n = "length (clean_terraform_docs (raw_markdown result))"
  let ?d = "str ''Extracted content too short ('' @ str_of_nat ?n @
            str '' chars). Page may not have loaded properly.''"
  have eq: "fst (scrape_url arun w url) = Inl (HTTPException 500 ?d)"
    using assms by (simp add: scrape_url_def Let_def)
  have "str_in (str_of_nat ?n) ?d"
    by (rule str_in_middle)
  then show ?thesis using eq by simp
qed

theorem short_content_raises_http_500_witness:
  "fst (scrape_url
         (const_crawler (CrawlResult True None (str ''xxxxxxxxxxxxxxxxxxxxxxxxxxxxxxxxxxxxxxxxxxxxxxxxxx'')))
         0 (str ''/providers'')) =
     Inl (HTTPException 500 (str ''Extracted content too short (50 chars). Page may not have loaded properly.''))"
  using short_content_raises_http_500
    [of "const_crawler (CrawlResult True None (str ''xxxxxxxxxxxxxxxxxxxxxxxxxxxxxxxxxxxxxxxxxxxxxxxxxx''))"
        0 "str ''/providers''"
        "CrawlResult True None (str ''xxxxxxxxxxxxxxxxxxxxxxxxxxxxxxxxxxxxxxxxxxxxxxxxxx'')" "Suc 0"]
  by (simp add: const_crawler_def clean_fifty length_fifty str_of_nat_50) (simp add: str_def)

text \<open>
  The claim C3 as the specification states it fails: a cleaned output of length 50 does
  not yield a result with \<open>success = False\<close>; an \<open>HTTPException\<close> leaves the operation.
\<close>

theorem short_content_is_no_response:
  "isl (fst (scrape_url
         (const_crawler (CrawlResult True None (str ''xxxxxxxxxxxxxxxxxxxxxxxxxxxxxxxxxxxxxxxxxxxxxxxxxx'')))
         0 (str ''/providers'')))
   \<and> fst (scrape_url
         (const_crawler (CrawlResult True None (str ''xxxxxxxxxxxxxxxxxxxxxxxxxxxxxxxxxxxxxxxxxxxxxxxxxx'')))
         0 (str ''/providers'')) =
     Inl (HTTPException 500 (str ''Extracted content too short (50 chars). Page may not have loaded properly.''))"
  by (simp add: scrape_url_def const_crawler_def clean_fifty length_fifty str_of_nat_50)
    (simp add: str_def)

text \<open>
  C4. Every \<open>ScrapeResponse\<close> the operation returns satisfies the invariant of the
  result: with \<open>success = True\<close> the markdown is the cleaned markdown of the render, it is
  not empty and has at least 200 characters; with \<open>success = False\<close> the markdown is
  the empty string and the error is set.
\<close>

theorem scrape_response_invariant:
  assumes "fst (scrape_url arun w url) = Inr r"
  shows "(success r \<longrightarrow>
            markdown r \<noteq> [] \<and> 200 \<le> length (markdown r) \<and>
            (\<exists>result w'. arun w (full_url url) = (Returns result, w') \<and>
               markdown r = clean_terraform_docs (raw_markdown result)))
         \<and> (\<not> success r \<longrightarrow> markdown r = [] \<and> error r \<noteq> None)"
proof (cases "arun w (full_url url)")
  case (Pair out w')
  show ?thesis
  proof (cases out)
    case (Raises e)
    with Pair assms have "r = \<lparr>markdown = [], success = False, error = Some e\<rparr>"
      by (simp add: scrape_url_def)
    then show ?thesis by simp
  next
    case (Returns result)
    with Pair assms have ok: "crawl_success result"
      and long: "\<not> length (clean_terraform_docs (raw_markdown result)) < 200"
      and r: "r = \<lparr>markdown = clean_terraform_docs (raw_markdown result), success = True, error = None\<rparr>"
      by (auto simp: scrape_url_def Let_def split: if_splits)
    from long have "clean_terraform_docs (raw_markdown result) \<noteq> []" by auto
    with long r Pair Returns show ?thesis by auto
  qed
qed

theorem scrape_response_invariant_witness:
  "fst (scrape_url (raising_crawler (str ''browser closed'')) 0 (str ''/providers'')) =
     Inr \<lparr>markdown = [], success = False, error = Some (str ''browser closed'')\<rparr>
   \<and> fst (scrape_url (const_crawler (CrawlResult True None (str ''# azurerm_foo\<newline>\<newline>Manages a Foo resource in Azure.\<newline>\<newline>## Example Usage\<newline>\<newline>The name of the Foo resource is required, and changing it forces a new resource to be created in the resource group.\<newline>\<newline>## Argument Reference\<newline>\<newline>The location is optional.''))) 0 (str ''/providers'')) =
     Inr \<lparr>markdown = str ''# azurerm_foo\<newline>\<newline>Manages a Foo resource in Azure.\<newline>\<newline>## Example Usage\<newline>\<newline>The name of the Foo resource is required, and changing it forces a new resource to be created in the resource group.\<newline>\<newline>## Argument Reference\<newline>\<newline>The location is optional.'', success = True, error = None\<rparr>
   \<and> 200 \<le> length (str ''# azurerm_foo\<newline>\<newline>Manages a Foo resource in Azure.\<newline>\<newline>## Example Usage\<newline>\<newline>The name of the Foo resource is required, and changing it forces a new resource to be created in the resource group.\<newline>\<newline>## Argument Reference\<newline>\<newline>The location is optional.'')"
proof -
  have h: "fst (scrape_url (raising_crawler (str ''browser closed'')) 0 (str ''/providers'')) =
     Inr \<lparr>markdown = [], success = False, error = Some (str ''browser closed'')\<rparr>"
    by (simp add: scrape_url_def raising_crawler_def)
  have g: "fst (scrape_url (const_crawler (CrawlResult True None (str ''# azurerm_foo\<newline>\<newline>Manages a Foo resource in Azure.\<newline>\<newline>## Example Usage\<newline>\<newline>The name of the Foo resource is required, and changing it forces a new resource to be created in the resource group.\<newline>\<newline>## Argument Reference\<newline>\<newline>The location is optional.''))) 0 (str ''/providers'')) =
     Inr \<lparr>markdown = str ''# azurerm_foo\<newline>\<newline>Manages a Foo resource in Azure.\<newline>\<newline>## Example Usage\<newline>\<newline>The name of the Foo resource is required, and changing it forces a new resource to be created in the resource group.\<newline>\<newline>## Argument Reference\<newline>\<newline>The location is optional.'', success = True, error = None\<rparr>"
    by (simp add: scrape_url_def const_crawler_def long_doc_clean long_doc_length)
  show ?thesis using h g scrape_response_invariant [OF h] scrape_response_invariant [OF g] by simp
qed

section \<open>Lines, joining and the two rewriting passes\<close>

lemma str_split_nonempty [simp]: "str_split s \<noteq> []"
  by (induction s) (auto split: list.splits)

lemma str_join_Cons_Cons: "str_join ((c # l) # ls) = c # str_join (l # ls)"
  by (cases ls) auto

lemma str_join_Nil_Cons: "ls \<noteq> [] \<Longrightarrow> str_join ([] # ls) = 10 # str_join ls"
  by (cases ls) auto

lemma join_split: "str_join (str_split s) = s"
proof (induction s)
  case Nil
  show ?case by simp
next
  case (Cons c cs)
  show ?case
  proof (cases "c = 10")
    case True
    then show ?thesis using Cons by (simp add: str_join_Nil_Cons)
  next
    case False
    obtain l ls where ls: "str_split cs = l # ls"
      using str_split_nonempty [of cs] by (cases "str_split cs") auto
    with False Cons show ?thesis by (simp add: str_join_Cons_Cons)
  qed
qed

lemma split_line_chars: "l \<in> set (str_split s) \<Longrightarrow> set l \<subseteq> set s - {10}"
proof (induction s arbitrary: l)
  case Nil
  then show ?case by simp
next
  case (Cons c cs)
  show ?case
  proof (cases "c = 10")
    case True
    with Cons.prems have "l = [] \<or> l \<in> set (str_split cs)" by auto
    then show ?thesis using Cons.IH by auto
  next
    case False
    obtain h t where ht: "str_split cs = h # t"
      using str_split_nonempty [of cs] by (cases "str_split cs") auto
    with False Cons.prems have "l = c # h \<or> l \<in> set t" by auto
    then show ?thesis
    proof
      assume "l = c # h"
      moreover have "set h \<subseteq> set cs - {10}" using Cons.IH [of h] ht by simp
      ultimately show ?thesis using False by auto
    next
      assume "l \<in> set t"
      then have "set l \<subseteq> set cs - {10}" using Cons.IH [of l] ht by simp
      then show ?thesis by auto
    qed
  qed
qed

lemma split_no_newline: "10 \<notin> set s \<Longrightarrow> str_split s = [s]"
  by (induction s) auto

lemma split_append_newline: "str_split (a @ 10 # b) = str_split a @ str_split b"
  by (induction a) (auto split: list.splits)

lemma split_join:
  "ls \<noteq> [] \<Longrightarrow> \<forall>l\<in>set ls. 10 \<notin> set l \<Longrightarrow> str_split (str_join ls) = ls"
proof (induction ls rule: str_join.induct)
  case 1
  then show ?case by simp
next
  case (2 l)
  then show ?case by (simp add: split_no_newline)
next
  case (3 l l' ls)
  then show ?case by (simp add: split_append_newline split_no_newline)
qed

lemma split_append:
  "str_split (a @ b) =
     butlast (str_split a) @ (last (str_split a) @ hd (str_split b)) # tl (str_split b)"
proof (induction a)
  case Nil
  then show ?case by simp
next
  case (Cons c a)
  obtain h t where ht: "str_split a = h # t"
    using str_split_nonempty [of a] by (cases "str_split a") auto
  show ?case
  proof (cases "c = 10")
    case True
    then show ?thesis using Cons by simp
  next
    case False
    then show ?thesis using Cons ht by (cases t) auto
  qed
qed

lemma length_str_join_subseq:
  "subseq xs ys \<Longrightarrow> length (str_join xs) \<le> length (str_join ys)"
proof (induction rule: list_emb.induct)
  case (list_emb_Nil ys)
  then show ?case by simp
next
  case (list_emb_Cons xs ys y)
  have "length (str_join ys) \<le> length (str_join (y # ys))" by (cases ys) auto
  with list_emb_Cons show ?case by simp
next
  case (list_emb_Cons2 x y xs ys)
  then have xy: "x = y" by simp
  show ?case
  proof (cases xs)
    case Nil
    then show ?thesis using xy by (cases ys) auto
  next
    case (Cons x' xs')
    with list_emb_Cons2 have "ys \<noteq> []" by auto
    then obtain y' ys' where "ys = y' # ys'" by (cases ys) auto
    with Cons xy list_emb_Cons2 show ?thesis by simp
  qed
qed

lemma filter_loop_eq:
  "filter_loop ls =
     filter (\<lambda>line. \<not> (any_in skip_patterns line \<and> length line < 150) \<and>
                    \<not> 5 < str_count line (str '']('')) ls"
  by (induction ls) auto

lemma length_re_sub_newlines: "length (re_sub_newlines s) \<le> length s"
proof (induction s rule: re_sub_newlines.induct)
  case 1
  then show ?case by simp
next
  case (2 c cs)
  show ?case
  proof (cases "c = 10")
    case True
    let ?run = "takeWhile (\<lambda>x. x = 10) (c # cs)"
    let ?rest = "dropWhile (\<lambda>x. x = 10) (c # cs)"
    have ih: "length (re_sub_newlines ?rest) \<le> length ?rest"
      using 2(1) [OF True refl refl] .
    have "length (c # cs) = length ?run + length ?rest"
      by (metis length_append takeWhile_dropWhile_id)
    moreover have "length (if 3 \<le> length ?run then [10, 10] else ?run) \<le> length ?run"
      by auto
    moreover have "re_sub_newlines (c # cs) =
        (if 3 \<le> length ?run then [10, 10] else ?run) @ re_sub_newlines ?rest"
      using True by (simp add: Let_def)
    ultimately show ?thesis using ih by (simp del: re_sub_newlines.simps)
  next
    case False
    then show ?thesis using 2(2) by simp
  qed
qed

lemma length_strip: "length (strip s) \<le> length s"
proof -
  have "length (strip s) \<le> length (dropWhile isspace s)"
    unfolding strip_def using length_dropWhile_le [of isspace "rev (dropWhile isspace s)"] by simp
  also have "\<dots> \<le> length s" by (rule length_dropWhile_le)
  finally show ?thesis .
qed

lemma cleaned_lines_subseq: "subseq (cleaned_lines m) (str_split m)"
proof -
  let ?ls = "str_split m"
  have "subseq (take (doc_end_of ?ls) ?ls) ?ls"
    by (metis append_take_drop_id subseq_rev_drop_many subseq_order.order_refl)
  moreover have "subseq (drop (doc_start_of ?ls) (take (doc_end_of ?ls) ?ls)) (take (doc_end_of ?ls) ?ls)"
    by (metis append_take_drop_id subseq_drop_many subseq_order.order_refl)
  ultimately have "subseq (drop (doc_start_of ?ls) (take (doc_end_of ?ls) ?ls)) ?ls"
    by (rule subseq_order.trans[rotated])
  moreover have "subseq (cleaned_lines m) (drop (doc_start_of ?ls) (take (doc_end_of ?ls) ?ls))"
    by (simp add: cleaned_lines_def filter_loop_eq Let_def)
  ultimately show ?thesis by (rule subseq_order.trans[rotated])
qed

lemma takeWhile_eq_replicate:
  "takeWhile (\<lambda>x. x = c) s = replicate (length (takeWhile (\<lambda>x. x = c) s)) c"
  by (induction s) auto



lemma re_sub_newlines_nl:
  "re_sub_newlines (10 # cs) =
     (if 3 \<le> length (takeWhile (\<lambda>x. x = 10) (10 # cs)) then [10, 10]
      else takeWhile (\<lambda>x. x = 10) (10 # cs)) @
     re_sub_newlines (dropWhile (\<lambda>x. x = 10) (10 # cs))"
  by (simp add: Let_def)



lemma long_run_startswith:
  assumes "3 \<le> length (takeWhile (\<lambda>x. x = 10) s)"
  shows "str_in [10, 10, 10] s"
proof -
  let ?k = "length (takeWhile (\<lambda>x. x = 10) s)"
  have "s = replicate ?k 10 @ dropWhile (\<lambda>x. x = 10) s"
    using takeWhile_eq_replicate [of 10 s] takeWhile_dropWhile_id [of "\<lambda>x. x = 10" s] by metis
  moreover obtain j where "?k = 3 + j"
    using assms le_Suc_ex by blast
  moreover have "replicate (3 + j) (10::nat) = [10, 10, 10] @ replicate j 10"
    by (simp add: numeral_3_eq_3)
  ultimately have "s = [] @ [10, 10, 10] @ (replicate j 10 @ dropWhile (\<lambda>x. x = 10) s)"
    by simp
  then show ?thesis unfolding str_in_iff by blast
qed

lemma str_in_suffix: "str_in p t \<Longrightarrow> str_in p (a @ t)"
  unfolding str_in_iff by (metis append.assoc)

lemma str_in_prefix: "str_in p t \<Longrightarrow> str_in p (t @ b)"
  unfolding str_in_iff by (metis append.assoc)

lemma re_sub_newlines_fixed:
  "\<not> str_in [10, 10, 10] s \<Longrightarrow> re_sub_newlines s = s"
proof (induction s rule: re_sub_newlines.induct)
  case 1
  show ?case by simp
next
  case (2 c cs)
  show ?case
  proof (cases "c = 10")
    case True
    let ?run = "takeWhile (\<lambda>x. x = 10) (c # cs)"
    let ?rest = "dropWhile (\<lambda>x. x = 10) (c # cs)"
    have short: "\<not> 3 \<le> length ?run" using long_run_startswith [of "c # cs"] 2(3) by blast
    have split: "?run @ ?rest = c # cs" by (rule takeWhile_dropWhile_id)
    have "str_in [10, 10, 10] ?rest \<Longrightarrow> str_in [10, 10, 10] (?run @ ?rest)"
      by (rule str_in_suffix)
    then have "\<not> str_in [10, 10, 10] ?rest"
      using 2(3) unfolding split by blast
    then have "re_sub_newlines ?rest = ?rest" using 2(1) [OF True refl refl] by blast
    moreover have "re_sub_newlines (c # cs) = ?run @ re_sub_newlines ?rest"
      using True short by (simp add: Let_def)
    ultimately have "re_sub_newlines (c # cs) = ?run @ ?rest" by simp
    then show ?thesis unfolding split .
  next
    case False
    then show ?thesis using 2 by auto
  qed
qed



lemma strip_decomp:
  "\<exists>a b. s = a @ strip s @ b \<and> (\<forall>c\<in>set a. isspace c) \<and> (\<forall>c\<in>set b. isspace c)"
proof -
  let ?t = "dropWhile isspace s"
  let ?a = "takeWhile isspace s"
  let ?b = "rev (takeWhile isspace (rev ?t))"
  have "rev (takeWhile isspace (rev ?t) @ dropWhile isspace (rev ?t)) = rev (rev ?t)"
    by (simp only: takeWhile_dropWhile_id)
  then have t: "?t = strip s @ ?b"
    by (simp only: rev_append rev_rev_ident strip_def)
  have "s = ?a @ ?t" by simp
  with t have "s = ?a @ strip s @ ?b" by simp
  moreover have "\<forall>c\<in>set ?a. isspace c" by (auto dest: set_takeWhileD)
  moreover have "\<forall>c\<in>set ?b. isspace c" by (auto dest: set_takeWhileD)
  ultimately show ?thesis by blast
qed



lemma doc_start_loop_none:
  "\<forall>l\<in>set ls. \<not> is_doc_start l \<Longrightarrow> doc_start_loop i ls = 0"
  by (induction ls arbitrary: i) auto

lemma doc_end_loop_none:
  "\<forall>k. s < k \<and> k \<le> i \<longrightarrow> \<not> any_in footer_patterns (ls ! k) \<Longrightarrow>
   doc_end_loop ls s i = length ls"
  by (induction i) auto

lemma filter_loop_id:
  "\<forall>l\<in>set ls. \<not> (any_in skip_patterns l \<and> length l < 150) \<and> str_count l (str '']('') \<le> 5 \<Longrightarrow>
   filter_loop ls = ls"
  by (induction ls) auto

section \<open>Where the lines of the cleaned markdown come from\<close>

lemma split_replicate_newlines: "str_split (replicate n 10 @ t) = replicate n [] @ str_split t"
  by (induction n) auto

lemma split_Cons_other:
  "c \<noteq> 10 \<Longrightarrow> str_split (c # t) = (c # hd (str_split t)) # tl (str_split t)"
  using str_split_nonempty [of t] by (cases "str_split t") auto

lemma set_split_hd_tl: "set (str_split s) = insert (hd (str_split s)) (set (tl (str_split s)))"
  using str_split_nonempty [of s] by (cases "str_split s") auto

lemma split_re_sub_newlines:
  "hd (str_split (re_sub_newlines s)) = hd (str_split s) \<and>
   set (tl (str_split (re_sub_newlines s))) \<subseteq> insert [] (set (tl (str_split s)))"
proof (induction s rule: re_sub_newlines.induct)
  case 1
  show ?case by simp
next
  case (2 c cs)
  show ?case
  proof (cases "c = 10")
    case True
    define run where "run = takeWhile (\<lambda>x. x = 10) (c # cs)"
    define rest where "rest = dropWhile (\<lambda>x. x = 10) (c # cs)"
    define k where "k = length run"
    define k' where "k' = (if 3 \<le> k then 2 else k)"
    have ih: "hd (str_split (re_sub_newlines rest)) = hd (str_split rest) \<and>
        set (tl (str_split (re_sub_newlines rest))) \<subseteq> insert [] (set (tl (str_split rest)))"
      unfolding rest_def using 2(1) [OF True refl refl] .
    have run: "run = replicate k 10"
      unfolding run_def k_def by (rule takeWhile_eq_replicate)
    have "run \<noteq> []" unfolding run_def using True by simp
    then have pos: "0 < k" unfolding k_def by simp
    then obtain j where j: "k = Suc j" by (cases k) auto
    have "0 < k'" unfolding k'_def using pos by simp
    then obtain j' where j': "k' = Suc j'" by (cases k') auto
    have r': "(if 3 \<le> k then [10, 10] else run) = replicate k' 10"
      unfolding k'_def using run by (simp add: numeral_2_eq_2)
    have "re_sub_newlines (c # cs) = (if 3 \<le> k then [10, 10] else run) @ re_sub_newlines rest"
      unfolding k_def run_def rest_def using True re_sub_newlines_nl [of cs] by simp
    then have out: "re_sub_newlines (c # cs) = replicate k' 10 @ re_sub_newlines rest"
      unfolding r' .
    have "run @ rest = c # cs" unfolding run_def rest_def by (rule takeWhile_dropWhile_id)
    then have inp: "c # cs = replicate k 10 @ rest" using run by simp
    have so: "str_split (re_sub_newlines (c # cs)) =
        [] # replicate j' [] @ str_split (re_sub_newlines rest)"
      unfolding out split_replicate_newlines j' by simp
    have si: "str_split (c # cs) = [] # replicate j [] @ str_split rest"
      unfolding inp split_replicate_newlines j by simp
    have "set (str_split (re_sub_newlines rest)) \<subseteq> insert [] (set (str_split rest))"
      using ih set_split_hd_tl [of "re_sub_newlines rest"] set_split_hd_tl [of rest] by auto
    then show ?thesis unfolding so si by auto
  next
    case False
    have o: "str_split (re_sub_newlines (c # cs)) =
        (c # hd (str_split (re_sub_newlines cs))) # tl (str_split (re_sub_newlines cs))"
      using False by (simp add: split_Cons_other del: str_split.simps)
    have i: "str_split (c # cs) = (c # hd (str_split cs)) # tl (str_split cs)"
      using False by (rule split_Cons_other)
    show ?thesis unfolding o i using 2(2) [OF False] by simp
  qed
qed

lemma set_split_re_sub_newlines:
  "set (str_split (re_sub_newlines s)) \<subseteq> insert [] (set (str_split s))"
  using split_re_sub_newlines [of s] set_split_hd_tl [of "re_sub_newlines s"] set_split_hd_tl [of s]
  by auto

lemma last_split_chars: "set (last (str_split a)) \<subseteq> set a"
  using split_line_chars [of "last (str_split a)" a] str_split_nonempty [of a] by auto

lemma hd_split_chars: "set (hd (str_split b)) \<subseteq> set b"
  using split_line_chars [of "hd (str_split b)" b] str_split_nonempty [of b] by auto

lemma split_prefix_line:
  assumes "l \<in> set (str_split t)"
  shows "\<exists>x. set x \<subseteq> set a \<and> x @ l \<in> set (str_split (a @ t))"
proof -
  have sp: "str_split (a @ t) =
      butlast (str_split a) @ (last (str_split a) @ hd (str_split t)) # tl (str_split t)"
    by (rule split_append)
  from assms have "l = hd (str_split t) \<or> l \<in> set (tl (str_split t))"
    using set_split_hd_tl [of t] by auto
  then show ?thesis
  proof
    assume "l = hd (str_split t)"
    then have "last (str_split a) @ l \<in> set (str_split (a @ t))" unfolding sp by simp
    then show ?thesis using last_split_chars by blast
  next
    assume "l \<in> set (tl (str_split t))"
    then have "[] @ l \<in> set (str_split (a @ t))" unfolding sp by simp
    moreover have "set [] \<subseteq> set a" by simp
    ultimately show ?thesis by blast
  qed
qed

lemma split_suffix_line:
  assumes "l \<in> set (str_split t)"
  shows "\<exists>y. set y \<subseteq> set b \<and> l @ y \<in> set (str_split (t @ b))"
proof -
  have sp: "str_split (t @ b) =
      butlast (str_split t) @ (last (str_split t) @ hd (str_split b)) # tl (str_split b)"
    by (rule split_append)
  have "str_split t = butlast (str_split t) @ [last (str_split t)]"
    using str_split_nonempty [of t] by simp
  then have "set (str_split t) = set (butlast (str_split t) @ [last (str_split t)])"
    by (rule arg_cong)
  then have "set (str_split t) = insert (last (str_split t)) (set (butlast (str_split t)))"
    by (simp del: append_butlast_last_id snoc_eq_iff_butlast)
  with assms have "l = last (str_split t) \<or> l \<in> set (butlast (str_split t))" by auto
  then show ?thesis
  proof
    assume "l = last (str_split t)"
    then have "l @ hd (str_split b) \<in> set (str_split (t @ b))" unfolding sp by simp
    then show ?thesis using hd_split_chars by blast
  next
    assume "l \<in> set (butlast (str_split t))"
    then have "l @ [] \<in> set (str_split (t @ b))" unfolding sp by simp
    moreover have "set [] \<subseteq> set b" by simp
    ultimately show ?thesis by blast
  qed
qed

lemma split_strip_line:
  assumes "l \<in> set (str_split (strip s))"
  shows "\<exists>x y. x @ l @ y \<in> set (str_split s) \<and> (\<forall>c\<in>set x. isspace c) \<and> (\<forall>c\<in>set y. isspace c)"
proof -
  obtain a b where s: "s = a @ strip s @ b"
    and a: "\<forall>c\<in>set a. isspace c" and b: "\<forall>c\<in>set b. isspace c"
    using strip_decomp by blast
  obtain y where y: "set y \<subseteq> set b" "l @ y \<in> set (str_split (strip s @ b))"
    using split_suffix_line [OF assms] by blast
  obtain x where x: "set x \<subseteq> set a" "x @ l @ y \<in> set (str_split (a @ strip s @ b))"
    using split_prefix_line [OF y(2)] by blast
  have "x @ l @ y \<in> set (str_split s)" using x(2) s by simp
  moreover have "\<forall>c\<in>set x. isspace c" using x(1) a by blast
  moreover have "\<forall>c\<in>set y. isspace c" using y(1) b by blast
  ultimately show ?thesis by blast
qed

lemma cleaned_lines_no_newline: "l \<in> set (cleaned_lines m) \<Longrightarrow> 10 \<notin> set l"
proof -
  assume "l \<in> set (cleaned_lines m)"
  then have "l \<in> set (str_split m)"
    using cleaned_lines_subseq [of m] by (auto elim: list_emb_set)
  then show ?thesis using split_line_chars by blast
qed

lemma output_line_origin:
  assumes "l \<in> set (str_split (clean_terraform_docs m))"
  shows "l = [] \<or>
         (\<exists>l'\<in>set (cleaned_lines m). \<exists>x y. l' = x @ l @ y \<and>
            (\<forall>c\<in>set x. isspace c) \<and> (\<forall>c\<in>set y. isspace c))"
proof -
  let ?cl = "cleaned_lines m"
  obtain x y where xy: "x @ l @ y \<in> set (str_split (re_sub_newlines (str_join ?cl)))"
    and x: "\<forall>c\<in>set x. isspace c" and y: "\<forall>c\<in>set y. isspace c"
    using split_strip_line [OF assms [unfolded clean_terraform_docs_def]] by blast
  from xy have "x @ l @ y = [] \<or> x @ l @ y \<in> set (str_split (str_join ?cl))"
    using set_split_re_sub_newlines by blast
  then show ?thesis
  proof
    assume "x @ l @ y = []"
    then show ?thesis by simp
  next
    assume in_join: "x @ l @ y \<in> set (str_split (str_join ?cl))"
    show ?thesis
    proof (cases "?cl = []")
      case True
      with in_join show ?thesis by simp
    next
      case False
      then have "str_split (str_join ?cl) = ?cl"
        using cleaned_lines_no_newline by (intro split_join) blast+
      with in_join have "x @ l @ y \<in> set ?cl" by simp
      with x y show ?thesis by blast
    qed
  qed
qed

lemma filter_loop_set:
  "l \<in> set (filter_loop ls) \<longleftrightarrow>
     l \<in> set ls \<and> \<not> (any_in skip_patterns l \<and> length l < 150) \<and> str_count l (str '']('') \<le> 5"
  by (auto simp: filter_loop_eq)

lemma slice_position:
  assumes "l \<in> set (drop s (take e ls))"
  shows "\<exists>k. s \<le> k \<and> k < e \<and> k < length ls \<and> ls ! k = l"
proof -
  obtain i where i: "i < length (drop s (take e ls))" "drop s (take e ls) ! i = l"
    using assms unfolding in_set_conv_nth by blast
  from i(1) have b: "s + i < e" "s + i < length ls" by simp_all
  then have "drop s (take e ls) ! i = ls ! (s + i)" by simp
  with i(2) have "ls ! (s + i) = l" by simp
  with b have "s \<le> s + i \<and> s + i < e \<and> s + i < length ls \<and> ls ! (s + i) = l" by simp
  then show ?thesis by (rule exI)
qed

lemma cleaned_line_position:
  assumes "l \<in> set (cleaned_lines m)"
  shows "\<exists>k. doc_start_of (str_split m) \<le> k \<and> k < doc_end_of (str_split m) \<and>
             k < length (str_split m) \<and> str_split m ! k = l"
proof -
  from assms have "l \<in> set (filter_loop (drop (doc_start_of (str_split m))
      (take (doc_end_of (str_split m)) (str_split m))))"
    by (simp add: cleaned_lines_def Let_def)
  then have "l \<in> set (drop (doc_start_of (str_split m))
      (take (doc_end_of (str_split m)) (str_split m)))"
    unfolding filter_loop_set by (rule conjunct1)
  then show ?thesis by (rule slice_position)
qed

lemma output_line_position:
  assumes "l \<in> set (str_split (clean_terraform_docs m))"
  shows "l = [] \<or>
         (\<exists>k x y. doc_start_of (str_split m) \<le> k \<and> k < doc_end_of (str_split m) \<and>
            k < length (str_split m) \<and> str_split m ! k = x @ l @ y \<and>
            (\<forall>c\<in>set x. isspace c) \<and> (\<forall>c\<in>set y. isspace c))"
proof -
  from output_line_origin [OF assms] show ?thesis
  proof
    assume "l = []"
    then show ?thesis by simp
  next
    assume "\<exists>l'\<in>set (cleaned_lines m). \<exists>x y. l' = x @ l @ y \<and>
            (\<forall>c\<in>set x. isspace c) \<and> (\<forall>c\<in>set y. isspace c)"
    then obtain l' x y where l': "l' \<in> set (cleaned_lines m)" "l' = x @ l @ y"
      "\<forall>c\<in>set x. isspace c" "\<forall>c\<in>set y. isspace c" by blast
    obtain k where k: "doc_start_of (str_split m) \<le> k" "k < doc_end_of (str_split m)"
      "k < length (str_split m)" "str_split m ! k = l'"
      using cleaned_line_position [OF l'(1)] by blast
    have "doc_start_of (str_split m) \<le> k \<and> k < doc_end_of (str_split m) \<and>
        k < length (str_split m) \<and> str_split m ! k = x @ l @ y \<and>
        (\<forall>c\<in>set x. isspace c) \<and> (\<forall>c\<in>set y. isspace c)"
      using k l'(2-) by simp
    then show ?thesis by blast
  qed
qed

lemma doc_start_loop_found:
  assumes "\<exists>l\<in>set ls. is_doc_start l"
  shows "i \<le> doc_start_loop i ls \<and> doc_start_loop i ls - i < length ls \<and>
         is_doc_start (ls ! (doc_start_loop i ls - i)) \<and>
         (\<forall>k < doc_start_loop i ls - i. \<not> is_doc_start (ls ! k))"
  using assms
proof (induction ls arbitrary: i)
  case Nil
  then show ?case by simp
next
  case (Cons l ls)
  show ?case
  proof (cases "is_doc_start l")
    case True
    then show ?thesis by simp
  next
    case False
    with Cons.prems have "\<exists>l\<in>set ls. is_doc_start l" by simp
    from Cons.IH [OF this, of "i + 1"] have ih: "i + 1 \<le> doc_start_loop (i + 1) ls"
      "doc_start_loop (i + 1) ls - (i + 1) < length ls"
      "is_doc_start (ls ! (doc_start_loop (i + 1) ls - (i + 1)))"
      "\<forall>k < doc_start_loop (i + 1) ls - (i + 1). \<not> is_doc_start (ls ! k)" by blast+
    define d where "d = doc_start_loop (i + 1) ls - (i + 1)"
    have eq: "doc_start_loop i (l # ls) - i = Suc d"
      using False ih(1) unfolding d_def by simp
    have "\<forall>k < Suc d. \<not> is_doc_start ((l # ls) ! k)"
    proof (intro allI impI)
      fix k assume "k < Suc d"
      then show "\<not> is_doc_start ((l # ls) ! k)"
        using False ih(4) unfolding d_def by (cases k) auto
    qed
    moreover have "is_doc_start ((l # ls) ! Suc d)" using ih(3) unfolding d_def by simp
    moreover have "Suc d < length (l # ls)" using ih(2) unfolding d_def by simp
    moreover have "i \<le> doc_start_loop i (l # ls)" using False ih(1) by simp
    ultimately show ?thesis unfolding eq by blast
  qed
qed

lemma doc_start_of_props:
  "ls \<noteq> [] \<Longrightarrow> doc_start_of ls < length ls"
  "\<forall>k < doc_start_of ls. \<not> is_doc_start (ls ! k)"
  "\<exists>l\<in>set ls. is_doc_start l \<Longrightarrow> is_doc_start (ls ! doc_start_of ls)"
  "\<forall>l\<in>set ls. \<not> is_doc_start l \<Longrightarrow> doc_start_of ls = 0"
proof -
  show "\<forall>l\<in>set ls. \<not> is_doc_start l \<Longrightarrow> doc_start_of ls = 0"
    unfolding doc_start_of_def by (rule doc_start_loop_none)
  show "\<exists>l\<in>set ls. is_doc_start l \<Longrightarrow> is_doc_start (ls ! doc_start_of ls)"
    unfolding doc_start_of_def using doc_start_loop_found [of ls 0] by simp
  show "\<forall>k < doc_start_of ls. \<not> is_doc_start (ls ! k)"
  proof (cases "\<exists>l\<in>set ls. is_doc_start l")
    case True
    then show ?thesis unfolding doc_start_of_def using doc_start_loop_found [of ls 0] by simp
  next
    case False
    then have "doc_start_of ls = 0" unfolding doc_start_of_def by (intro doc_start_loop_none) blast
    then show ?thesis by simp
  qed
  show "ls \<noteq> [] \<Longrightarrow> doc_start_of ls < length ls"
  proof (cases "\<exists>l\<in>set ls. is_doc_start l")
    case True
    then show ?thesis unfolding doc_start_of_def using doc_start_loop_found [of ls 0] by simp
  next
    case False
    assume "ls \<noteq> []"
    moreover from False have "doc_start_of ls = 0"
      unfolding doc_start_of_def by (intro doc_start_loop_none) blast
    ultimately show ?thesis by simp
  qed
qed

lemma doc_end_loop_props:
  "(doc_end_loop ls s i = length ls \<and> (\<forall>k. s < k \<and> k \<le> i \<longrightarrow> \<not> any_in footer_patterns (ls ! k)))
   \<or> (s < doc_end_loop ls s i \<and> doc_end_loop ls s i \<le> i \<and>
       any_in footer_patterns (ls ! doc_end_loop ls s i) \<and>
       (\<forall>k. doc_end_loop ls s i < k \<and> k \<le> i \<longrightarrow> \<not> any_in footer_patterns (ls ! k)))"
proof (induction i)
  case 0
  show ?case by simp
next
  case (Suc i)
  consider "Suc i \<le> s" | "s < Suc i" "any_in footer_patterns (ls ! Suc i)"
    | "s < Suc i" "\<not> any_in footer_patterns (ls ! Suc i)" by linarith
  then show ?case
  proof cases
    case 1
    then show ?thesis by auto
  next
    case 2
    then show ?thesis by auto
  next
    case 3
    then have eq: "doc_end_loop ls s (Suc i) = doc_end_loop ls s i" by simp
    have step: "\<not> any_in footer_patterns (ls ! k)"
      if "\<forall>j. a < j \<and> j \<le> i \<longrightarrow> \<not> any_in footer_patterns (ls ! j)" "a < k" "k \<le> Suc i"
      for a k using that 3(2) by (cases "k = Suc i") auto
    from Suc.IH show ?thesis unfolding eq
    proof
      assume a: "doc_end_loop ls s i = length ls \<and>
          (\<forall>k. s < k \<and> k \<le> i \<longrightarrow> \<not> any_in footer_patterns (ls ! k))"
      then have "\<forall>k. s < k \<and> k \<le> Suc i \<longrightarrow> \<not> any_in footer_patterns (ls ! k)"
        using step by blast
      with a show "(doc_end_loop ls s i = length ls \<and>
          (\<forall>k. s < k \<and> k \<le> Suc i \<longrightarrow> \<not> any_in footer_patterns (ls ! k))) \<or>
        (s < doc_end_loop ls s i \<and> doc_end_loop ls s i \<le> Suc i \<and>
          any_in footer_patterns (ls ! doc_end_loop ls s i) \<and>
          (\<forall>k. doc_end_loop ls s i < k \<and> k \<le> Suc i \<longrightarrow> \<not> any_in footer_patterns (ls ! k)))"
        by blast
    next
      assume b: "s < doc_end_loop ls s i \<and> doc_end_loop ls s i \<le> i \<and>
          any_in footer_patterns (ls ! doc_end_loop ls s i) \<and>
          (\<forall>k. doc_end_loop ls s i < k \<and> k \<le> i \<longrightarrow> \<not> any_in footer_patterns (ls ! k))"
      then have "\<forall>k. doc_end_loop ls s i < k \<and> k \<le> Suc i \<longrightarrow> \<not> any_in footer_patterns (ls ! k)"
        using step by blast
      moreover from b have "doc_end_loop ls s i \<le> Suc i" by simp
      ultimately show "(doc_end_loop ls s i = length ls \<and>
          (\<forall>k. s < k \<and> k \<le> Suc i \<longrightarrow> \<not> any_in footer_patterns (ls ! k))) \<or>
        (s < doc_end_loop ls s i \<and> doc_end_loop ls s i \<le> Suc i \<and>
          any_in footer_patterns (ls ! doc_end_loop ls s i) \<and>
          (\<forall>k. doc_end_loop ls s i < k \<and> k \<le> Suc i \<longrightarrow> \<not> any_in footer_patterns (ls ! k)))"
        using b by blast
    qed
  qed
qed

lemma doc_end_of_props:
  assumes "ls \<noteq> []"
  shows "doc_start_of ls < doc_end_of ls" and "doc_end_of ls \<le> length ls"
    and "\<forall>k. doc_end_of ls < k \<and> k < length ls \<longrightarrow> \<not> any_in footer_patterns (ls ! k)"
    and "doc_end_of ls < length ls \<Longrightarrow> any_in footer_patterns (ls ! doc_end_of ls)"
    and "doc_end_of ls = length ls \<longleftrightarrow>
         (\<forall>k. doc_start_of ls < k \<and> k < length ls \<longrightarrow> \<not> any_in footer_patterns (ls ! k))"
proof -
  let ?s = "doc_start_of ls" and ?e = "doc_end_of ls" and ?n = "length ls"
  have s: "?s < ?n" using assms by (rule doc_start_of_props(1))
  have le: "k \<le> ?n - 1 \<longleftrightarrow> k < ?n" for k using s by auto
  from doc_end_loop_props [of ls ?s "?n - 1"]
  have cases: "(?e = ?n \<and> (\<forall>k. ?s < k \<and> k < ?n \<longrightarrow> \<not> any_in footer_patterns (ls ! k)))
     \<or> (?s < ?e \<and> ?e < ?n \<and> any_in footer_patterns (ls ! ?e) \<and>
         (\<forall>k. ?e < k \<and> k < ?n \<longrightarrow> \<not> any_in footer_patterns (ls ! k)))"
    unfolding doc_end_of_def [symmetric] le .
  from cases s show "?s < ?e" by auto
  from cases show "?e \<le> ?n" by auto
  from cases show "\<forall>k. ?e < k \<and> k < ?n \<longrightarrow> \<not> any_in footer_patterns (ls ! k)" by auto
  from cases show "?e < ?n \<Longrightarrow> any_in footer_patterns (ls ! ?e)" by auto
  from cases show "?e = ?n \<longleftrightarrow>
      (\<forall>k. ?s < k \<and> k < ?n \<longrightarrow> \<not> any_in footer_patterns (ls ! k))" by auto
qed

section \<open>Link constructs and stripped whitespace\<close>

lemma links_Nil: "str_count [] [93, 40] = 0"
  by simp

lemma links_single: "str_count [c] [93, 40] = 0"
  by simp

lemma links_other: "c \<noteq> 93 \<Longrightarrow> str_count (c # cs) [93, 40] = str_count cs [93, 40]"
  by simp

lemma links_hit: "str_count (93 # 40 # cs) [93, 40] = Suc (str_count cs [93, 40])"
  by simp

lemma links_miss: "d \<noteq> 40 \<Longrightarrow> str_count (c # d # cs) [93, 40] = str_count (d # cs) [93, 40]"
  by simp

lemma links_prepend: "93 \<notin> set x \<Longrightarrow> str_count (x @ l) [93, 40] = str_count l [93, 40]"
  by (induction x) (simp_all add: links_other del: str_count.simps)

lemma links_none: "93 \<notin> set y \<Longrightarrow> str_count y [93, 40] = 0"
  using links_prepend [of y "[]"] by simp

lemma links_append:
  "93 \<notin> set y \<Longrightarrow> 40 \<notin> set y \<Longrightarrow> str_count (l @ y) [93, 40] = str_count l [93, 40]"
proof (induction l rule: induct_list012)
  case 1
  then show ?case by (simp add: links_none del: str_count.simps)
next
  case (2 c)
  show ?case
  proof (cases y)
    case Nil
    then show ?thesis by simp
  next
    case (Cons d ds)
    with 2 have d: "d \<noteq> 40" by auto
    have "str_count ([c] @ y) [93, 40] = str_count (c # d # ds) [93, 40]" using Cons by simp
    also have "\<dots> = str_count (d # ds) [93, 40]" using d by (rule links_miss)
    also have "\<dots> = 0" using 2 Cons links_none [of y] by simp
    finally show ?thesis by (simp only: links_single)
  qed
next
  case (3 c d cs)
  show ?case
  proof (cases "c = 93 \<and> d = 40")
    case True
    have "str_count ((c # d # cs) @ y) [93, 40] = Suc (str_count (cs @ y) [93, 40])"
      using True links_hit [of "cs @ y"] by simp
    also have "\<dots> = Suc (str_count cs [93, 40])" using 3 by simp
    also have "\<dots> = str_count (c # d # cs) [93, 40]" using True links_hit [of cs] by simp
    finally show ?thesis .
  next
    case False
    have a: "str_count (c # d # t) [93, 40] = str_count (d # t) [93, 40]" for t
      using False by (cases "d = 40") (simp_all add: links_miss links_other del: str_count.simps)
    have "str_count ((c # d # cs) @ y) [93, 40] = str_count ((d # cs) @ y) [93, 40]"
      using a [of "cs @ y"] by simp
    also have "\<dots> = str_count (d # cs) [93, 40]" using 3 by simp
    also have "\<dots> = str_count (c # d # cs) [93, 40]" using a [of cs] by simp
    finally show ?thesis .
  qed
qed

lemma isspace_not_link: "isspace c \<Longrightarrow> c \<noteq> 93 \<and> c \<noteq> 40"
  by (auto simp: isspace_def)

lemma links_trim:
  assumes "\<forall>c\<in>set x. isspace c" and "\<forall>c\<in>set y. isspace c"
  shows "str_count (x @ l @ y) (str '']('') = str_count l (str '']('')"
proof -
  have "93 \<notin> set x" "93 \<notin> set y" "40 \<notin> set y" using assms isspace_not_link by blast+
  then have "str_count (x @ l @ y) [93, 40] = str_count l [93, 40]"
    using links_prepend [of x "l @ y"] links_append [of y l] by simp
  then show ?thesis by (simp add: str_def del: str_count.simps)
qed

lemma str_in_context: "str_in p l \<Longrightarrow> str_in p (x @ l @ y)"
  by (rule str_in_suffix) (rule str_in_prefix)

lemma any_in_context: "any_in ps l \<Longrightarrow> any_in ps (x @ l @ y)"
  unfolding any_in_def list_ex_iff using str_in_context by blast

section \<open>Lines that reach the cleaned markdown\<close>

lemma split_re_sub_newlines_back:
  "set (tl (str_split s)) \<subseteq> insert [] (set (tl (str_split (re_sub_newlines s))))"
proof (induction s rule: re_sub_newlines.induct)
  case 1
  show ?case by simp
next
  case (2 c cs)
  show ?case
  proof (cases "c = 10")
    case True
    define run where "run = takeWhile (\<lambda>x. x = 10) (c # cs)"
    define rest where "rest = dropWhile (\<lambda>x. x = 10) (c # cs)"
    define k where "k = length run"
    define k' where "k' = (if 3 \<le> k then 2 else k)"
    have ih: "set (tl (str_split rest)) \<subseteq> insert [] (set (tl (str_split (re_sub_newlines rest))))"
      unfolding rest_def using 2(1) [OF True refl refl] .
    have hd: "hd (str_split (re_sub_newlines rest)) = hd (str_split rest)"
      using split_re_sub_newlines by blast
    have run: "run = replicate k 10"
      unfolding run_def k_def by (rule takeWhile_eq_replicate)
    have "run \<noteq> []" unfolding run_def using True by simp
    then have pos: "0 < k" unfolding k_def by simp
    then obtain j where j: "k = Suc j" by (cases k) auto
    have "0 < k'" unfolding k'_def using pos by simp
    then obtain j' where j': "k' = Suc j'" by (cases k') auto
    have r': "(if 3 \<le> k then [10, 10] else run) = replicate k' 10"
      unfolding k'_def using run by (simp add: numeral_2_eq_2)
    have "re_sub_newlines (c # cs) = (if 3 \<le> k then [10, 10] else run) @ re_sub_newlines rest"
      unfolding k_def run_def rest_def using True re_sub_newlines_nl [of cs] by simp
    then have out: "re_sub_newlines (c # cs) = replicate k' 10 @ re_sub_newlines rest"
      unfolding r' .
    have "run @ rest = c # cs" unfolding run_def rest_def by (rule takeWhile_dropWhile_id)
    then have inp: "c # cs = replicate k 10 @ rest" using run by simp
    have so: "str_split (re_sub_newlines (c # cs)) =
        [] # replicate j' [] @ str_split (re_sub_newlines rest)"
      unfolding out split_replicate_newlines j' by simp
    have si: "str_split (c # cs) = [] # replicate j [] @ str_split rest"
      unfolding inp split_replicate_newlines j by simp
    have "set (str_split rest) \<subseteq> insert [] (set (str_split (re_sub_newlines rest)))"
      using ih hd set_split_hd_tl [of "re_sub_newlines rest"] set_split_hd_tl [of rest] by auto
    then show ?thesis unfolding so si by auto
  next
    case False
    have o: "str_split (re_sub_newlines (c # cs)) =
        (c # hd (str_split (re_sub_newlines cs))) # tl (str_split (re_sub_newlines cs))"
      using False by (simp add: split_Cons_other del: str_split.simps)
    have i: "str_split (c # cs) = (c # hd (str_split cs)) # tl (str_split cs)"
      using False by (rule split_Cons_other)
    show ?thesis unfolding o i using 2(2) [OF False] by simp
  qed
qed

lemma split_re_sub_newlines_keeps:
  assumes "l \<in> set (str_split s)" and "l \<noteq> []"
  shows "l \<in> set (str_split (re_sub_newlines s))"
proof -
  have "hd (str_split (re_sub_newlines s)) = hd (str_split s)"
    using split_re_sub_newlines by blast
  then show ?thesis
    using assms split_re_sub_newlines_back [of s]
      set_split_hd_tl [of "re_sub_newlines s"] set_split_hd_tl [of s] by auto
qed

lemma split_drop_space_prefix:
  assumes "l \<in> set (str_split (a @ u))" and "\<forall>c\<in>set a. isspace c"
    and "l \<noteq> []" and "\<not> isspace (hd l)"
  shows "l \<in> set (str_split u)"
proof -
  have sp: "str_split (a @ u) =
      butlast (str_split a) @ (last (str_split a) @ hd (str_split u)) # tl (str_split u)"
    by (rule split_append)
  have hdl: "hd l \<notin> set a" using assms(2,4) by blast
  from assms(1) consider "l \<in> set (butlast (str_split a))"
    | "l = last (str_split a) @ hd (str_split u)" | "l \<in> set (tl (str_split u))"
    unfolding sp by auto
  then show ?thesis
  proof cases
    case 1
    then have "l \<in> set (str_split a)" by (rule in_set_butlastD)
    then have "set l \<subseteq> set a" using split_line_chars by blast
    then have "hd l \<in> set a" using assms(3) by (meson hd_in_set subsetD)
    with hdl show ?thesis by blast
  next
    case 2
    have "last (str_split a) = []"
    proof (rule ccontr)
      assume ne: "last (str_split a) \<noteq> []"
      then have "hd l = hd (last (str_split a))" using 2 by simp
      then have "hd l \<in> set (last (str_split a))" using ne by simp
      then show False using last_split_chars hdl by blast
    qed
    with 2 have "l = hd (str_split u)" by simp
    then show ?thesis using set_split_hd_tl [of u] by simp
  next
    case 3
    then show ?thesis using set_split_hd_tl [of u] by simp
  qed
qed

lemma split_drop_space_suffix:
  assumes "l \<in> set (str_split (t @ b))" and "\<forall>c\<in>set b. isspace c"
    and "l \<noteq> []" and "\<not> isspace (last l)"
  shows "l \<in> set (str_split t)"
proof -
  have sp: "str_split (t @ b) =
      butlast (str_split t) @ (last (str_split t) @ hd (str_split b)) # tl (str_split b)"
    by (rule split_append)
  have lastl: "last l \<notin> set b" using assms(2,4) by blast
  from assms(1) consider "l \<in> set (butlast (str_split t))"
    | "l = last (str_split t) @ hd (str_split b)" | "l \<in> set (tl (str_split b))"
    unfolding sp by auto
  then show ?thesis
  proof cases
    case 1
    then show ?thesis by (rule in_set_butlastD)
  next
    case 2
    have "hd (str_split b) = []"
    proof (rule ccontr)
      assume ne: "hd (str_split b) \<noteq> []"
      then have "last l = last (hd (str_split b))" using 2 by simp
      then have "last l \<in> set (hd (str_split b))" using ne by simp
      then show False using hd_split_chars lastl by blast
    qed
    with 2 have "l = last (str_split t)" by simp
    then show ?thesis using str_split_nonempty [of t] by simp
  next
    case 3
    then have "l \<in> set (str_split b)" by (rule list.set_sel(2) [rotated]) simp
    then have "set l \<subseteq> set b" using split_line_chars by blast
    then have "last l \<in> set b" using assms(3) by (meson last_in_set subsetD)
    with lastl show ?thesis by blast
  qed
qed

lemma split_strip_keeps:
  assumes "l \<in> set (str_split s)" and "l \<noteq> []"
    and "\<not> isspace (hd l)" and "\<not> isspace (last l)"
  shows "l \<in> set (str_split (strip s))"
proof -
  obtain a b where s: "s = a @ strip s @ b"
    and a: "\<forall>c\<in>set a. isspace c" and b: "\<forall>c\<in>set b. isspace c"
    using strip_decomp by blast
  from assms(1) have "l \<in> set (str_split (a @ strip s @ b))" using s by simp
  then have "l \<in> set (str_split (strip s @ b))"
    using a assms(2,3) by (rule split_drop_space_prefix)
  then show ?thesis using b assms(2,4) by (rule split_drop_space_suffix)
qed

lemma cleaned_line_survives:
  assumes "l \<in> set (cleaned_lines m)" and "l \<noteq> []"
    and "\<not> isspace (hd l)" and "\<not> isspace (last l)"
  shows "l \<in> set (str_split (clean_terraform_docs m))"
proof -
  let ?cl = "cleaned_lines m"
  from assms(1) have ne: "?cl \<noteq> []" by auto
  then have "str_split (str_join ?cl) = ?cl"
    using cleaned_lines_no_newline by (intro split_join) blast+
  with assms(1) have "l \<in> set (str_split (str_join ?cl))" by simp
  then have "l \<in> set (str_split (re_sub_newlines (str_join ?cl)))"
    using assms(2) by (rule split_re_sub_newlines_keeps)
  then show ?thesis unfolding clean_terraform_docs_def
    using assms(2-) by (rule split_strip_keeps)
qed

lemma slice_member:
  assumes "s \<le> k" and "k < e" and "k < length ls"
  shows "ls ! k \<in> set (drop s (take e ls))"
proof -
  have len: "k - s < length (drop s (take e ls))" using assms by simp
  have "drop s (take e ls) ! (k - s) = ls ! k" using assms by simp
  then show ?thesis using len by (metis nth_mem)
qed

lemma kept_line_survives:
  assumes "doc_start_of (str_split m) \<le> k" and "k < doc_end_of (str_split m)"
    and "\<not> (any_in skip_patterns (str_split m ! k) \<and> length (str_split m ! k) < 150)"
    and "str_count (str_split m ! k) (str '']('') \<le> 5"
    and "str_split m ! k \<noteq> []"
    and "\<not> isspace (hd (str_split m ! k))" and "\<not> isspace (last (str_split m ! k))"
  shows "str_split m ! k \<in> set (str_split (clean_terraform_docs m))"
proof -
  have "doc_end_of (str_split m) \<le> length (str_split m)"
    by (rule doc_end_of_props(2)) simp
  with assms(2) have "k < length (str_split m)" by simp
  with assms(1,2) have "str_split m ! k \<in>
      set (drop (doc_start_of (str_split m)) (take (doc_end_of (str_split m)) (str_split m)))"
    by (intro slice_member)
  with assms(3,4) have "str_split m ! k \<in> set (cleaned_lines m)"
    by (simp add: cleaned_lines_def Let_def filter_loop_set)
  then show ?thesis using assms(5-7) by (rule cleaned_line_survives)
qed







lemma length_nav5: "length (str ''Browse [a](b) [c](d) [e](f) [g](h) [i](j) xxxxxxxxxxxxxxxxxxxxxxxxxxxxxxxxxxxxxxxxxxxxxxxxxxxxxxxxxxxxxxxxxxxxxxxxxxxxxxxxxxxxxxxxxxxxxxxxxxxxxxxxxxxx'') = 150"
  by (simp add: str_def)

lemma nav5_is_navigation: "any_in skip_patterns (str ''Browse [a](b) [c](d) [e](f) [g](h) [i](j) xxxxxxxxxxxxxxxxxxxxxxxxxxxxxxxxxxxxxxxxxxxxxxxxxxxxxxxxxxxxxxxxxxxxxxxxxxxxxxxxxxxxxxxxxxxxxxxxxxxxxxxxxxxx'')"
  by (simp add: str_def any_in_def skip_patterns_def)

lemma nav5_links: "str_count (str ''Browse [a](b) [c](d) [e](f) [g](h) [i](j) xxxxxxxxxxxxxxxxxxxxxxxxxxxxxxxxxxxxxxxxxxxxxxxxxxxxxxxxxxxxxxxxxxxxxxxxxxxxxxxxxxxxxxxxxxxxxxxxxxxxxxxxxxxx'') (str '']('') \<le> 5"
  by (simp add: str_def)

section \<open>The cleaned markdown\<close>

text \<open>
  C10. The cleaned markdown is never longer than the input: the lines joined are a
  subsequence of the input's lines, collapsing runs of line feeds and stripping only
  remove characters.
\<close>

theorem clean_never_longer: "length (clean_terraform_docs m) \<le> length m"
proof -
  have "length (clean_terraform_docs m) \<le> length (re_sub_newlines (str_join (cleaned_lines m)))"
    unfolding clean_terraform_docs_def by (rule length_strip)
  also have "\<dots> \<le> length (str_join (cleaned_lines m))"
    by (rule length_re_sub_newlines)
  also have "\<dots> \<le> length (str_join (str_split m))"
    by (rule length_str_join_subseq [OF cleaned_lines_subseq])
  also have "\<dots> = length m" by (simp add: join_split)
  finally show ?thesis .
qed

text \<open>
  C8. A document that is already clean is returned unchanged except for the stripping of
  leading and trailing whitespace: when no line is a start-boundary line, no line
  contains a footer marker, no line under 150 characters contains a navigation phrase, no
  line has more than 5 link constructs, and the document has no run of three line feeds.
\<close>

theorem clean_of_clean_document:
  assumes "\<forall>l\<in>set (str_split m).
             \<not> is_doc_start l \<and> \<not> any_in footer_patterns l \<and>
             \<not> (any_in skip_patterns l \<and> length l < 150) \<and> str_count l (str '']('') \<le> 5"
    and "\<not> str_in (str ''\<newline>\<newline>\<newline>'') m"
  shows "clean_terraform_docs m = strip m"
proof -
  let ?ls = "str_split m"
  have s0: "doc_start_of ?ls = 0"
    using assms(1) by (simp add: doc_start_of_def doc_start_loop_none)
  have "\<forall>k. 0 < k \<and> k \<le> length ?ls - 1 \<longrightarrow> \<not> any_in footer_patterns (?ls ! k)"
  proof (intro allI impI)
    fix k assume "0 < k \<and> k \<le> length ?ls - 1"
    then have "k < length ?ls" by auto
    then have "?ls ! k \<in> set ?ls" by simp
    then show "\<not> any_in footer_patterns (?ls ! k)" using assms(1) by blast
  qed
  then have e: "doc_end_of ?ls = length ?ls"
    unfolding doc_end_of_def s0 by (rule doc_end_loop_none)
  have "cleaned_lines m = filter_loop ?ls"
    by (simp add: cleaned_lines_def Let_def s0 e)
  also have "\<dots> = ?ls" using assms(1) by (intro filter_loop_id) blast
  finally have "str_join (cleaned_lines m) = m" by (simp add: join_split)
  moreover have "re_sub_newlines m = m"
    using assms(2) by (intro re_sub_newlines_fixed) (simp add: str_def)
  ultimately show ?thesis by (simp add: clean_terraform_docs_def)
qed

theorem clean_of_clean_document_witness:
  "clean_terraform_docs (str ''  Intro text\<newline>\<newline>See [a](b) for more. '') =
     strip (str ''  Intro text\<newline>\<newline>See [a](b) for more. '')
   \<and> strip (str ''  Intro text\<newline>\<newline>See [a](b) for more. '') =
     str ''Intro text\<newline>\<newline>See [a](b) for more.''"
proof -
  let ?m = "str ''  Intro text\<newline>\<newline>See [a](b) for more. ''"
  have h1: "\<forall>l\<in>set (str_split ?m).
             \<not> is_doc_start l \<and> \<not> any_in footer_patterns l \<and>
             \<not> (any_in skip_patterns l \<and> length l < 150) \<and> str_count l (str '']('') \<le> 5"
    by (simp add: str_def is_doc_start_def any_in_def footer_patterns_def skip_patterns_def)
  have h2: "\<not> str_in (str ''\<newline>\<newline>\<newline>'') ?m"
    by (simp add: str_def)
  have "strip ?m = str ''Intro text\<newline>\<newline>See [a](b) for more.''"
    by (simp add: str_def strip_def isspace_def)
  then show ?thesis using clean_of_clean_document [OF h1 h2] by simp
qed




text \<open>
  C6. No line of the cleaned markdown has more than 5 link constructs \<open>](\<close>, so every
  input line with more than 5 of them is absent from the cleaned markdown. A line with 5
  or fewer is not dropped by this rule: the filter drops it only when the navigation rule
  applies to it.
\<close>

theorem link_dense_lines_absent:
  "(\<forall>l\<in>set (str_split (clean_terraform_docs m)). str_count l (str '']('') \<le> 5)
   \<and> (\<forall>l\<in>set (str_split m). 5 < str_count l (str '']('') \<longrightarrow>
         l \<notin> set (str_split (clean_terraform_docs m)))
   \<and> (\<forall>l\<in>set ls. str_count l (str '']('') \<le> 5 \<longrightarrow>
         (l \<in> set (filter_loop ls) \<longleftrightarrow> \<not> (any_in skip_patterns l \<and> length l < 150)))"
proof -
  have out: "str_count l (str '']('') \<le> 5" if "l \<in> set (str_split (clean_terraform_docs m))" for l
  proof -
    from output_line_origin [OF that] show ?thesis
    proof
      assume "l = []"
      then show ?thesis by (simp add: str_def)
    next
      assume "\<exists>l'\<in>set (cleaned_lines m). \<exists>x y. l' = x @ l @ y \<and> (\<forall>c\<in>set x. isspace c) \<and> (\<forall>c\<in>set y. isspace c)"
      then obtain l' x y where l': "l' \<in> set (cleaned_lines m)" "l' = x @ l @ y"
        "\<forall>c\<in>set x. isspace c" "\<forall>c\<in>set y. isspace c" by blast
      from l'(1) have "str_count l' (str '']('') \<le> 5"
        by (simp add: cleaned_lines_def Let_def filter_loop_set)
      then show ?thesis unfolding l'(2) links_trim [OF l'(3,4)] .
    qed
  qed
  then have "\<forall>l\<in>set (str_split m). 5 < str_count l (str '']('') \<longrightarrow>
         l \<notin> set (str_split (clean_terraform_docs m))"
    by (meson not_le)
  moreover have "\<forall>l\<in>set ls. str_count l (str '']('') \<le> 5 \<longrightarrow>
         (l \<in> set (filter_loop ls) \<longleftrightarrow> \<not> (any_in skip_patterns l \<and> length l < 150))"
    unfolding filter_loop_set by blast
  ultimately show ?thesis using out by blast
qed

theorem link_dense_lines_absent_witness:
  "str ''[1](a) [2](b) [3](c) [4](d) [5](e) [6](f)'' \<notin> set (str_split (clean_terraform_docs (str ''[1](a) [2](b) [3](c) [4](d) [5](e) [6](f)\<newline>[1](a) [2](b) [3](c) [4](d) [5](e)\<newline>end'')))
   \<and> str ''[1](a) [2](b) [3](c) [4](d) [5](e)'' \<in> set (filter_loop (str_split (str ''[1](a) [2](b) [3](c) [4](d) [5](e) [6](f)\<newline>[1](a) [2](b) [3](c) [4](d) [5](e)\<newline>end'')))"
proof -
  let ?m = "str ''[1](a) [2](b) [3](c) [4](d) [5](e) [6](f)\<newline>[1](a) [2](b) [3](c) [4](d) [5](e)\<newline>end''"
  note t = link_dense_lines_absent [of ?m "str_split ?m"]
  have six: "str ''[1](a) [2](b) [3](c) [4](d) [5](e) [6](f)'' \<in> set (str_split ?m) \<and> 5 < str_count (str ''[1](a) [2](b) [3](c) [4](d) [5](e) [6](f)'') (str '']('')"
    by (simp add: str_def)
  have five: "str ''[1](a) [2](b) [3](c) [4](d) [5](e)'' \<in> set (str_split ?m) \<and> str_count (str ''[1](a) [2](b) [3](c) [4](d) [5](e)'') (str '']('') \<le> 5
      \<and> \<not> (any_in skip_patterns (str ''[1](a) [2](b) [3](c) [4](d) [5](e)'') \<and> length (str ''[1](a) [2](b) [3](c) [4](d) [5](e)'') < 150)"
    by (simp add: str_def any_in_def skip_patterns_def)
  from t six five show ?thesis by blast
qed

text \<open>
  C7, as the code has it. A line under 150 characters that contains a navigation phrase is
  never among the lines the filter keeps; a line of the cleaned markdown that contains a
  navigation phrase and has fewer than 150 characters can only be what stripping left of a
  kept line of 150 characters or more. A line of 150 characters or more that contains a
  navigation phrase is not dropped by the navigation rule: the filter keeps it exactly when
  it has at most 5 link constructs. A kept line that is not empty and neither starts nor
  ends with whitespace is a line of the cleaned markdown.
\<close>

theorem navigation_lines_filtered:
  "(\<forall>l\<in>set (cleaned_lines m). \<not> (any_in skip_patterns l \<and> length l < 150))
   \<and> (\<forall>l\<in>set (str_split (clean_terraform_docs m)).
         any_in skip_patterns l \<and> length l < 150 \<longrightarrow>
         (\<exists>l'\<in>set (cleaned_lines m). 150 \<le> length l' \<and> (\<exists>x y. l' = x @ l @ y \<and> (\<forall>c\<in>set x. isspace c) \<and> (\<forall>c\<in>set y. isspace c))))
   \<and> (\<forall>l\<in>set ls. any_in skip_patterns l \<longrightarrow>
         (l \<in> set (filter_loop ls) \<longleftrightarrow> 150 \<le> length l \<and> str_count l (str '']('') \<le> 5))
   \<and> (\<forall>l\<in>set (cleaned_lines m). l \<noteq> [] \<and> \<not> isspace (hd l) \<and> \<not> isspace (last l) \<longrightarrow>
         l \<in> set (str_split (clean_terraform_docs m)))"
proof (intro conjI ballI impI)
  fix l assume "l \<in> set (cleaned_lines m)"
  then show "\<not> (any_in skip_patterns l \<and> length l < 150)"
    by (simp add: cleaned_lines_def Let_def filter_loop_set)
next
  fix l assume l: "l \<in> set (str_split (clean_terraform_docs m))"
    and nav: "any_in skip_patterns l \<and> length l < 150"
  have "\<not> any_in skip_patterns []" by (simp add: any_in_def skip_patterns_def str_def)
  with nav have "l \<noteq> []" by blast
  with output_line_origin [OF l]
  obtain l' x y where l': "l' \<in> set (cleaned_lines m)" "l' = x @ l @ y"
    "\<forall>c\<in>set x. isspace c" "\<forall>c\<in>set y. isspace c" by blast
  from nav have "any_in skip_patterns l'" unfolding l'(2) by (intro any_in_context) blast
  moreover from l'(1) have "\<not> (any_in skip_patterns l' \<and> length l' < 150)"
    by (simp add: cleaned_lines_def Let_def filter_loop_set)
  ultimately have "150 \<le> length l'" by simp
  with l' show "\<exists>l'\<in>set (cleaned_lines m). 150 \<le> length l' \<and> (\<exists>x y. l' = x @ l @ y \<and> (\<forall>c\<in>set x. isspace c) \<and> (\<forall>c\<in>set y. isspace c))"
    by blast
next
  fix l assume "l \<in> set ls" "any_in skip_patterns l"
  then show "l \<in> set (filter_loop ls) \<longleftrightarrow> 150 \<le> length l \<and> str_count l (str '']('') \<le> 5"
    unfolding filter_loop_set by auto
next
  fix l assume "l \<in> set (cleaned_lines m)"
    and "l \<noteq> [] \<and> \<not> isspace (hd l) \<and> \<not> isspace (last l)"
  then show "l \<in> set (str_split (clean_terraform_docs m))"
    by (intro cleaned_line_survives) blast+
qed

theorem navigation_lines_filtered_witness:
  "str ''Browse [a](b) [c](d) [e](f) [g](h) [i](j) xxxxxxxxxxxxxxxxxxxxxxxxxxxxxxxxxxxxxxxxxxxxxxxxxxxxxxxxxxxxxxxxxxxxxxxxxxxxxxxxxxxxxxxxxxxxxxxxxxxxxxxxxxxx'' \<in> set (filter_loop [str ''Browse'', str ''Browse [a](b) [c](d) [e](f) [g](h) [i](j) xxxxxxxxxxxxxxxxxxxxxxxxxxxxxxxxxxxxxxxxxxxxxxxxxxxxxxxxxxxxxxxxxxxxxxxxxxxxxxxxxxxxxxxxxxxxxxxxxxxxxxxxxxxx''])
   \<and> str ''Browse'' \<notin> set (filter_loop [str ''Browse'', str ''Browse [a](b) [c](d) [e](f) [g](h) [i](j) xxxxxxxxxxxxxxxxxxxxxxxxxxxxxxxxxxxxxxxxxxxxxxxxxxxxxxxxxxxxxxxxxxxxxxxxxxxxxxxxxxxxxxxxxxxxxxxxxxxxxxxxxxxx''])"
proof -
  note t = navigation_lines_filtered [of "str ''Browse''" "[str ''Browse'', str ''Browse [a](b) [c](d) [e](f) [g](h) [i](j) xxxxxxxxxxxxxxxxxxxxxxxxxxxxxxxxxxxxxxxxxxxxxxxxxxxxxxxxxxxxxxxxxxxxxxxxxxxxxxxxxxxxxxxxxxxxxxxxxxxxxxxxxxxx'']"]
  have short: "any_in skip_patterns (str ''Browse'') \<and> \<not> 150 \<le> length (str ''Browse'')"
    by (simp add: str_def any_in_def skip_patterns_def)
  from t short nav5_is_navigation length_nav5 nav5_links show ?thesis by simp
qed

text \<open>
  The claim C7 as the specification states it fails: a line of 150 characters that contains
  the navigation phrase \<open>Browse\<close> and six link constructs is not retained; the cleaned
  markdown of the document made of that line is empty.
\<close>

theorem long_navigation_line_with_links_dropped:
  "length (str ''Browse [a](b) [c](d) [e](f) [g](h) [i](j) [k](l) xxxxxxxxxxxxxxxxxxxxxxxxxxxxxxxxxxxxxxxxxxxxxxxxxxxxxxxxxxxxxxxxxxxxxxxxxxxxxxxxxxxxxxxxxxxxxxxxxxxxx'') = 150
   \<and> any_in skip_patterns (str ''Browse [a](b) [c](d) [e](f) [g](h) [i](j) [k](l) xxxxxxxxxxxxxxxxxxxxxxxxxxxxxxxxxxxxxxxxxxxxxxxxxxxxxxxxxxxxxxxxxxxxxxxxxxxxxxxxxxxxxxxxxxxxxxxxxxxxx'')
   \<and> clean_terraform_docs (str ''Browse [a](b) [c](d) [e](f) [g](h) [i](j) [k](l) xxxxxxxxxxxxxxxxxxxxxxxxxxxxxxxxxxxxxxxxxxxxxxxxxxxxxxxxxxxxxxxxxxxxxxxxxxxxxxxxxxxxxxxxxxxxxxxxxxxxx'') = []"
  by (simp add: clean_eval)

text \<open>
  C5, as the code has it. The start boundary is a line of the document; no line before it
  is a start line; it is a start line when the document has one and line 0 otherwise. A
  start line is a line that starts with \<open># azurerm_\<close> or \<open># data.azurerm_\<close> or contains
  \<open>Example Usage\<close>. Every line of the cleaned markdown is empty or is, up to stripped
  whitespace, a line at or after the start boundary: no line before the start boundary
  survives. The lines from the start boundary on are not cut by it: such a line, when it
  lies before the end boundary, passes both filter rules, is not empty and neither starts
  nor ends with whitespace, is a line of the cleaned markdown.
\<close>

theorem start_boundary:
  "doc_start_of (str_split m) < length (str_split m)
   \<and> (\<forall>k < doc_start_of (str_split m). \<not> is_doc_start (str_split m ! k))
   \<and> ((\<exists>l\<in>set (str_split m). is_doc_start l) \<longrightarrow>
         is_doc_start (str_split m ! doc_start_of (str_split m)))
   \<and> ((\<forall>l\<in>set (str_split m). \<not> is_doc_start l) \<longrightarrow> doc_start_of (str_split m) = 0)
   \<and> (\<forall>l. is_doc_start l \<longleftrightarrow>
         startswith l (str ''# azurerm_'') \<or> startswith l (str ''# data.azurerm_'') \<or>
         str_in (str ''Example Usage'') l)
   \<and> (\<forall>l\<in>set (str_split (clean_terraform_docs m)).
         l = [] \<or>
         (\<exists>k x y. doc_start_of (str_split m) \<le> k \<and> k < length (str_split m) \<and>
            str_split m ! k = x @ l @ y \<and> (\<forall>c\<in>set x. isspace c) \<and> (\<forall>c\<in>set y. isspace c)))
   \<and> (\<forall>k. doc_start_of (str_split m) \<le> k \<and> k < doc_end_of (str_split m) \<and>
         \<not> (any_in skip_patterns (str_split m ! k) \<and> length (str_split m ! k) < 150) \<and>
         str_count (str_split m ! k) (str '']('') \<le> 5 \<and>
         str_split m ! k \<noteq> [] \<and>
         \<not> isspace (hd (str_split m ! k)) \<and> \<not> isspace (last (str_split m ! k)) \<longrightarrow>
         str_split m ! k \<in> set (str_split (clean_terraform_docs m)))"
proof (intro conjI)
  show "doc_start_of (str_split m) < length (str_split m)"
    by (rule doc_start_of_props(1)) simp
  show "\<forall>k < doc_start_of (str_split m). \<not> is_doc_start (str_split m ! k)"
    by (rule doc_start_of_props(2))
  show "(\<exists>l\<in>set (str_split m). is_doc_start l) \<longrightarrow>
         is_doc_start (str_split m ! doc_start_of (str_split m))"
    using doc_start_of_props(3) by blast
  show "(\<forall>l\<in>set (str_split m). \<not> is_doc_start l) \<longrightarrow> doc_start_of (str_split m) = 0"
    using doc_start_of_props(4) by blast
  have "str_in (str ''## Example Usage'') l \<Longrightarrow> str_in (str ''Example Usage'') l" for l
  proof -
    assume "str_in (str ''## Example Usage'') l"
    then obtain a b where "l = a @ str ''## Example Usage'' @ b" unfolding str_in_iff by blast
    then have "l = (a @ str ''## '') @ str ''Example Usage'' @ b" by (simp add: str_def)
    then show ?thesis unfolding str_in_iff by blast
  qed
  then show "\<forall>l. is_doc_start l \<longleftrightarrow>
         startswith l (str ''# azurerm_'') \<or> startswith l (str ''# data.azurerm_'') \<or>
         str_in (str ''Example Usage'') l"
    unfolding is_doc_start_def by blast
  show "\<forall>l\<in>set (str_split (clean_terraform_docs m)).
         l = [] \<or>
         (\<exists>k x y. doc_start_of (str_split m) \<le> k \<and> k < length (str_split m) \<and>
            str_split m ! k = x @ l @ y \<and> (\<forall>c\<in>set x. isspace c) \<and> (\<forall>c\<in>set y. isspace c))"
  proof
    fix l assume "l \<in> set (str_split (clean_terraform_docs m))"
    from output_line_position [OF this] show "l = [] \<or>
         (\<exists>k x y. doc_start_of (str_split m) \<le> k \<and> k < length (str_split m) \<and>
            str_split m ! k = x @ l @ y \<and> (\<forall>c\<in>set x. isspace c) \<and> (\<forall>c\<in>set y. isspace c))"
      by blast
  qed
  show "(\<forall>k. doc_start_of (str_split m) \<le> k \<and> k < doc_end_of (str_split m) \<and>
         \<not> (any_in skip_patterns (str_split m ! k) \<and> length (str_split m ! k) < 150) \<and>
         str_count (str_split m ! k) (str '']('') \<le> 5 \<and>
         str_split m ! k \<noteq> [] \<and>
         \<not> isspace (hd (str_split m ! k)) \<and> \<not> isspace (last (str_split m ! k)) \<longrightarrow>
         str_split m ! k \<in> set (str_split (clean_terraform_docs m)))"
    using kept_line_survives by blast
qed

theorem start_boundary_witness:
  "doc_start_of (str_split (str ''Browse all\<newline># azurerm_foo\<newline>body'')) = 1
   \<and> is_doc_start (str_split (str ''Browse all\<newline># azurerm_foo\<newline>body'') ! 1)
   \<and> \<not> is_doc_start (str_split (str ''Browse all\<newline># azurerm_foo\<newline>body'') ! 0)
   \<and> str ''body'' \<in> set (str_split (clean_terraform_docs (str ''Browse all\<newline># azurerm_foo\<newline>body'')))"
proof -
  let ?m = "str ''Browse all\<newline># azurerm_foo\<newline>body''"
  note t = start_boundary [of ?m]
  have s: "doc_start_of (str_split ?m) = 1"
    by (simp add: str_def doc_start_of_def is_doc_start_def)
  have ex: "\<exists>l\<in>set (str_split ?m). is_doc_start l"
    by (simp add: str_def is_doc_start_def)
  have e: "doc_end_of (str_split ?m) = 3"
    by (simp add: str_def doc_start_of_def doc_end_of_def is_doc_start_def any_in_def
        footer_patterns_def eval_nat_numeral)
  have k: "str_split ?m ! 2 = str ''body'' \<and>
      doc_start_of (str_split ?m) \<le> 2 \<and> 2 < doc_end_of (str_split ?m) \<and>
      \<not> (any_in skip_patterns (str_split ?m ! 2) \<and> length (str_split ?m ! 2) < 150) \<and>
      str_count (str_split ?m ! 2) (str '']('') \<le> 5 \<and> str_split ?m ! 2 \<noteq> [] \<and>
      \<not> isspace (hd (str_split ?m ! 2)) \<and> \<not> isspace (last (str_split ?m ! 2))"
    unfolding e s by (simp add: str_def any_in_def skip_patterns_def isspace_def)
  from t have kept: "\<forall>k. doc_start_of (str_split ?m) \<le> k \<and> k < doc_end_of (str_split ?m) \<and>
         \<not> (any_in skip_patterns (str_split ?m ! k) \<and> length (str_split ?m ! k) < 150) \<and>
         str_count (str_split ?m ! k) (str '']('') \<le> 5 \<and>
         str_split ?m ! k \<noteq> [] \<and>
         \<not> isspace (hd (str_split ?m ! k)) \<and> \<not> isspace (last (str_split ?m ! k)) \<longrightarrow>
         str_split ?m ! k \<in> set (str_split (clean_terraform_docs ?m))"
    by (elim conjE)
  from kept k have b: "str ''body'' \<in> set (str_split (clean_terraform_docs ?m))" by metis
  from t have "\<forall>k < doc_start_of (str_split ?m). \<not> is_doc_start (str_split ?m ! k)"
    and "(\<exists>l\<in>set (str_split ?m). is_doc_start l) \<longrightarrow>
         is_doc_start (str_split ?m ! doc_start_of (str_split ?m))"
    by blast+
  with s ex b show ?thesis by auto
qed

text \<open>
  The claim C5 as the specification states it fails: when a line containing
  \<open>Example Usage\<close> precedes the heading, the start boundary is that line, and in the
  document below the two lines before the heading survive.
\<close>

theorem lines_before_heading_survive:
  "startswith (str_split (str ''Example Usage\<newline>intro\<newline># azurerm_foo'') ! 2) (str ''# azurerm_'')
   \<and> clean_terraform_docs (str ''Example Usage\<newline>intro\<newline># azurerm_foo'') = str ''Example Usage\<newline>intro\<newline># azurerm_foo''"
  by (simp add: clean_eval)

text \<open>
  C1, as the code has it. The end boundary lies after the start boundary. It is the last
  line after the start boundary that contains a footer marker, and the end of the document
  when no line after the start boundary contains one. Every line of the cleaned markdown
  is empty or is, up to stripped whitespace, a line from the start boundary up to, but not
  including, the end boundary: the boundary line and the lines after it are discarded. A
  line between the boundaries is not cut by them, whether or not it contains a marker:
  when it passes both filter rules, is not empty and neither starts nor ends with
  whitespace, it is a line of the cleaned markdown. For the example document the cleaned
  markdown ends with the line \<open>HashiCorp\<close>.
\<close>

theorem end_boundary:
  "doc_start_of (str_split m) < doc_end_of (str_split m)
   \<and> doc_end_of (str_split m) \<le> length (str_split m)
   \<and> (doc_end_of (str_split m) < length (str_split m) \<longrightarrow>
        any_in footer_patterns (str_split m ! doc_end_of (str_split m)))
   \<and> (\<forall>k. doc_end_of (str_split m) < k \<and> k < length (str_split m) \<longrightarrow>
        \<not> any_in footer_patterns (str_split m ! k))
   \<and> (doc_end_of (str_split m) = length (str_split m) \<longleftrightarrow>
        (\<forall>k. doc_start_of (str_split m) < k \<and> k < length (str_split m) \<longrightarrow>
           \<not> any_in footer_patterns (str_split m ! k)))
   \<and> (\<forall>l\<in>set (str_split (clean_terraform_docs m)).
         l = [] \<or>
         (\<exists>k x y. doc_start_of (str_split m) \<le> k \<and> k < doc_end_of (str_split m) \<and>
            str_split m ! k = x @ l @ y \<and> (\<forall>c\<in>set x. isspace c) \<and> (\<forall>c\<in>set y. isspace c)))
   \<and> (\<forall>k. doc_start_of (str_split m) \<le> k \<and> k < doc_end_of (str_split m) \<and>
         \<not> (any_in skip_patterns (str_split m ! k) \<and> length (str_split m ! k) < 150) \<and>
         str_count (str_split m ! k) (str '']('') \<le> 5 \<and>
         str_split m ! k \<noteq> [] \<and>
         \<not> isspace (hd (str_split m ! k)) \<and> \<not> isspace (last (str_split m ! k)) \<longrightarrow>
         str_split m ! k \<in> set (str_split (clean_terraform_docs m)))
   \<and> clean_terraform_docs (str ''# azurerm_foo\<newline>\<newline>some docs\<newline>\<newline>HashiCorp\<newline>Privacy\<newline>'') = str ''# azurerm_foo\<newline>\<newline>some docs\<newline>\<newline>HashiCorp''"
proof (intro conjI)
  have ne: "str_split m \<noteq> []" by simp
  show "doc_start_of (str_split m) < doc_end_of (str_split m)"
    using ne by (rule doc_end_of_props(1))
  show "doc_end_of (str_split m) \<le> length (str_split m)"
    using ne by (rule doc_end_of_props(2))
  show "doc_end_of (str_split m) < length (str_split m) \<longrightarrow>
        any_in footer_patterns (str_split m ! doc_end_of (str_split m))"
    using doc_end_of_props(4) [OF ne] by blast
  show "\<forall>k. doc_end_of (str_split m) < k \<and> k < length (str_split m) \<longrightarrow>
        \<not> any_in footer_patterns (str_split m ! k)"
    using ne by (rule doc_end_of_props(3))
  show "doc_end_of (str_split m) = length (str_split m) \<longleftrightarrow>
        (\<forall>k. doc_start_of (str_split m) < k \<and> k < length (str_split m) \<longrightarrow>
           \<not> any_in footer_patterns (str_split m ! k))"
    using ne by (rule doc_end_of_props(5))
  show "\<forall>l\<in>set (str_split (clean_terraform_docs m)).
         l = [] \<or>
         (\<exists>k x y. doc_start_of (str_split m) \<le> k \<and> k < doc_end_of (str_split m) \<and>
            str_split m ! k = x @ l @ y \<and> (\<forall>c\<in>set x. isspace c) \<and> (\<forall>c\<in>set y. isspace c))"
  proof
    fix l assume "l \<in> set (str_split (clean_terraform_docs m))"
    from output_line_position [OF this] show "l = [] \<or>
         (\<exists>k x y. doc_start_of (str_split m) \<le> k \<and> k < doc_end_of (str_split m) \<and>
            str_split m ! k = x @ l @ y \<and> (\<forall>c\<in>set x. isspace c) \<and> (\<forall>c\<in>set y. isspace c))"
      by blast
  qed
  show "(\<forall>k. doc_start_of (str_split m) \<le> k \<and> k < doc_end_of (str_split m) \<and>
         \<not> (any_in skip_patterns (str_split m ! k) \<and> length (str_split m ! k) < 150) \<and>
         str_count (str_split m ! k) (str '']('') \<le> 5 \<and>
         str_split m ! k \<noteq> [] \<and>
         \<not> isspace (hd (str_split m ! k)) \<and> \<not> isspace (last (str_split m ! k)) \<longrightarrow>
         str_split m ! k \<in> set (str_split (clean_terraform_docs m)))"
    using kept_line_survives by blast
  show "clean_terraform_docs (str ''# azurerm_foo\<newline>\<newline>some docs\<newline>\<newline>HashiCorp\<newline>Privacy\<newline>'') = str ''# azurerm_foo\<newline>\<newline>some docs\<newline>\<newline>HashiCorp''"
    by (simp add: clean_eval)
qed

theorem end_boundary_witness:
  "doc_end_of (str_split (str ''# azurerm_foo\<newline>\<newline>some docs\<newline>\<newline>HashiCorp\<newline>Privacy\<newline>'')) = 5
   \<and> any_in footer_patterns (str_split (str ''# azurerm_foo\<newline>\<newline>some docs\<newline>\<newline>HashiCorp\<newline>Privacy\<newline>'') ! 5)
   \<and> \<not> any_in footer_patterns (str_split (str ''# azurerm_foo\<newline>\<newline>some docs\<newline>\<newline>HashiCorp\<newline>Privacy\<newline>'') ! 6)
   \<and> str ''HashiCorp'' \<in> set (str_split (clean_terraform_docs (str ''# azurerm_foo\<newline>\<newline>some docs\<newline>\<newline>HashiCorp\<newline>Privacy\<newline>'')))"
proof -
  let ?m = "str ''# azurerm_foo\<newline>\<newline>some docs\<newline>\<newline>HashiCorp\<newline>Privacy\<newline>''"
  note t = end_boundary [of ?m]
  have e: "doc_end_of (str_split ?m) = 5"
    by (simp add: str_def doc_start_of_def doc_end_of_def is_doc_start_def any_in_def
        footer_patterns_def eval_nat_numeral)
  have n: "length (str_split ?m) = 7" by (simp add: str_def)
  have s: "doc_start_of (str_split ?m) = 0"
    by (simp add: str_def doc_start_of_def is_doc_start_def)
  have k: "str_split ?m ! 4 = str ''HashiCorp'' \<and>
      doc_start_of (str_split ?m) \<le> 4 \<and> 4 < doc_end_of (str_split ?m) \<and>
      \<not> (any_in skip_patterns (str_split ?m ! 4) \<and> length (str_split ?m ! 4) < 150) \<and>
      str_count (str_split ?m ! 4) (str '']('') \<le> 5 \<and> str_split ?m ! 4 \<noteq> [] \<and>
      \<not> isspace (hd (str_split ?m ! 4)) \<and> \<not> isspace (last (str_split ?m ! 4))"
    unfolding e s by (simp add: str_def any_in_def skip_patterns_def isspace_def)
  from t have kept: "\<forall>k. doc_start_of (str_split ?m) \<le> k \<and> k < doc_end_of (str_split ?m) \<and>
         \<not> (any_in skip_patterns (str_split ?m ! k) \<and> length (str_split ?m ! k) < 150) \<and>
         str_count (str_split ?m ! k) (str '']('') \<le> 5 \<and>
         str_split ?m ! k \<noteq> [] \<and>
         \<not> isspace (hd (str_split ?m ! k)) \<and> \<not> isspace (last (str_split ?m ! k)) \<longrightarrow>
         str_split ?m ! k \<in> set (str_split (clean_terraform_docs ?m))"
    by (elim conjE)
  from kept k have h: "str ''HashiCorp'' \<in> set (str_split (clean_terraform_docs ?m))" by metis
  from t have "doc_end_of (str_split ?m) < length (str_split ?m) \<longrightarrow>
        any_in footer_patterns (str_split ?m ! doc_end_of (str_split ?m))"
    and "\<forall>k. doc_end_of (str_split ?m) < k \<and> k < length (str_split ?m) \<longrightarrow>
        \<not> any_in footer_patterns (str_split ?m ! k)"
    by blast+
  then show ?thesis using h unfolding e n by simp
qed

text \<open>
  The claim C1 as the specification states it fails: the cleaned markdown of the example
  document is not the document up to \<open>some docs\<close>; it still contains the marker
  \<open>HashiCorp\<close>.
\<close>

theorem footer_marker_survives:
  "clean_terraform_docs (str ''# azurerm_foo\<newline>\<newline>some docs\<newline>\<newline>HashiCorp\<newline>Privacy\<newline>'') \<noteq> str ''# azurerm_foo\<newline>\<newline>some docs''
   \<and> str_in (str ''HashiCorp'') (clean_terraform_docs (str ''# azurerm_foo\<newline>\<newline>some docs\<newline>\<newline>HashiCorp\<newline>Privacy\<newline>''))"
  by (simp add: clean_eval)

end
